theory Spec2Isabelle
  imports Complex_Main "HOL-Library.Word" "HOL-Library.Multiset"
begin

unbundle bit_operations_syntax

section \<open>Data model of the search engine (class Minimax of gomoku.py)\<close>

text \<open>
  The board is a list of rows of Python integers (0 empty, 1 and 2 the two roles), with
  value semantics: the rows are separate lists, as \<^verbatim>\<open>main\<close> builds them. An
  \<^verbatim>\<open>IndexError\<close> of the source is the result \<open>None\<close>.
\<close>

type_synonym grid = "int list list"
type_synonym move = "nat \<times> nat"

text \<open>
  Scores and the bounds alpha and beta are Python floats: a finite value or one of
  \<^verbatim>\<open>-math.inf\<close>, \<^verbatim>\<open>math.inf\<close>. A finite double is the rational it denotes.
\<close>

datatype pyfloat = NegInf | Fin rat | PosInf

instantiation pyfloat :: linorder
begin

fun less_eq_pyfloat :: "pyfloat \<Rightarrow> pyfloat \<Rightarrow> bool" where
  "less_eq_pyfloat NegInf _ = True"
| "less_eq_pyfloat (Fin a) NegInf = False"
| "less_eq_pyfloat (Fin a) (Fin b) = (a \<le> b)"
| "less_eq_pyfloat (Fin a) PosInf = True"
| "less_eq_pyfloat PosInf PosInf = True"
| "less_eq_pyfloat PosInf _ = False"

definition less_pyfloat :: "pyfloat \<Rightarrow> pyfloat \<Rightarrow> bool" where
  "less_pyfloat a b = (a \<le> b \<and> \<not> b \<le> a)"

instance
proof
  fix x y z :: pyfloat
  show "(x < y) = (x \<le> y \<and> \<not> y \<le> x)"
    by (simp add: less_pyfloat_def)
  show "x \<le> x"
    by (cases x) simp_all
  show "x \<le> y \<Longrightarrow> y \<le> z \<Longrightarrow> x \<le> z"
    by (cases x; cases y; cases z) simp_all
  show "x \<le> y \<Longrightarrow> y \<le> x \<Longrightarrow> x = y"
    by (cases x; cases y) simp_all
  show "x \<le> y \<or> y \<le> x"
    by (cases x; cases y) auto
qed

end

text \<open>The dictionary stored per fingerprint: \<^verbatim>\<open>{"score": score, "depth": depth}\<close>.\<close>

record tt_entry =
  tt_score :: pyfloat
  tt_depth :: nat

text \<open>The fields that \<^verbatim>\<open>Minimax.__init__\<close> sets.\<close>

record engine =
  board :: grid
  size_e :: nat
  max_depth :: nat
  ai_role :: int
  opponent_role :: int
  transposition_table :: "64 word \<rightharpoonup> tt_entry"

definition init_engine :: "grid \<Rightarrow> nat \<Rightarrow> engine" where
  "init_engine b md =
     \<lparr>board = b, size_e = length b, max_depth = md, ai_role = 1, opponent_role = 2,
      transposition_table = Map.empty\<rparr>"

text \<open>
  \<^verbatim>\<open>ZOBRIST_TABLE\<close> is drawn at random when the module is loaded, so it is a
  parameter: a function giving the 64-bit entry at an index inside the shape (20, 20, 3).
\<close>

type_synonym ztable = "nat \<Rightarrow> nat \<Rightarrow> nat \<Rightarrow> 64 word"

text \<open>
  \<^verbatim>\<open>list(available_moves)\<close> lists a set of tuples in the order of the runtime's hash
  table, which the source does not fix. The conversion is a parameter as well: it maps
  the sequence of \<^verbatim>\<open>add\<close> calls to the resulting list. Python guarantees that the list
  holds each element of the set once.
\<close>

type_synonym set_listing = "move list \<Rightarrow> move list"

definition set_semantics :: "set_listing \<Rightarrow> bool" where
  "set_semantics sl = (\<forall>xs. set (sl xs) = set xs \<and> distinct (sl xs))"

subsection \<open>Reading and writing cells\<close>

text \<open>\<^verbatim>\<open>self.board[x][y]\<close> for indices that are not negative.\<close>

definition cell :: "grid \<Rightarrow> nat \<Rightarrow> nat \<Rightarrow> int option" where
  "cell b x y =
     (if x < length b then (if y < length (b ! x) then Some (b ! x ! y) else None) else None)"

text \<open>\<^verbatim>\<open>self.board[x][y] = v\<close>.\<close>

definition set_cell :: "grid \<Rightarrow> nat \<Rightarrow> nat \<Rightarrow> int \<Rightarrow> grid option" where
  "set_cell b x y v =
     (if x < length b then (if y < length (b ! x) then Some (b[x := (b ! x)[y := v]]) else None)
      else None)"

text \<open>
  \<^verbatim>\<open>ZOBRIST_TABLE[x][y][piece]\<close> on an array of shape (20, 20, 3): a negative index counts
  from the end, an index outside the shape raises.
\<close>

definition zobrist_entry :: "ztable \<Rightarrow> nat \<Rightarrow> nat \<Rightarrow> int \<Rightarrow> 64 word option" where
  "zobrist_entry Z x y piece =
     (if x < 20 \<and> y < 20 then
        (if 0 \<le> piece \<and> piece < 3 then Some (Z x y (nat piece))
         else if - 3 \<le> piece \<and> piece < 0 then Some (Z x y (nat (piece + 3)))
         else None)
      else None)"

subsection \<open>Loops\<close>

text \<open>
  A \<^verbatim>\<open>for\<close> loop over a list, with a loop state: the body raises (\<open>None\<close>), leaves the
  function with a value (\<open>Return\<close>) or goes on with a new state (\<open>Continue\<close>).
\<close>

datatype ('r, 's) flow = Return 'r | Continue 's

fun for_loop :: "('a \<Rightarrow> 's \<Rightarrow> ('r, 's) flow option) \<Rightarrow> 'a list \<Rightarrow> 's \<Rightarrow> ('r, 's) flow option" where
  "for_loop body [] s = Some (Continue s)"
| "for_loop body (x # xs) s =
     (case body x s of
        None \<Rightarrow> None
      | Some (Return r) \<Rightarrow> Some (Return r)
      | Some (Continue s') \<Rightarrow> for_loop body xs s')"

text \<open>\<^verbatim>\<open>for x in range(self.size): for y in range(self.size)\<close>: the cells, row by row.\<close>

definition cells :: "nat \<Rightarrow> move list" where
  "cells n = List.product [0..<n] [0..<n]"

section \<open>PositionHasher: \<^verbatim>\<open>zobrist_hash\<close>\<close>

definition hash_cell :: "ztable \<Rightarrow> grid \<Rightarrow> move \<Rightarrow> 64 word \<Rightarrow> (64 word, 64 word) flow option" where
  "hash_cell Z b = (\<lambda>(x, y) hash_value.
     (case cell b x y of
        None \<Rightarrow> None
      | Some piece \<Rightarrow>
          if piece \<noteq> 0 then
            (case zobrist_entry Z x y piece of
               None \<Rightarrow> None
             | Some z \<Rightarrow> Some (Continue (hash_value XOR z)))
          else Some (Continue hash_value)))"

definition zobrist_hash :: "ztable \<Rightarrow> engine \<Rightarrow> 64 word option" where
  "zobrist_hash Z e =
     (case for_loop (hash_cell Z (board e)) (cells (size_e e)) 0 of
        None \<Rightarrow> None
      | Some (Return r) \<Rightarrow> Some r
      | Some (Continue hash_value) \<Rightarrow> Some hash_value)"

section \<open>WinDetector: \<^verbatim>\<open>is_winning_move\<close> and \<^verbatim>\<open>check_direction\<close>\<close>

text \<open>
  The loop of \<^verbatim>\<open>check_direction\<close>, with the number of rounds of \<^verbatim>\<open>range(5)\<close> that
  are left and the running \<^verbatim>\<open>count\<close>.
\<close>

fun check_direction_loop ::
  "engine \<Rightarrow> nat \<Rightarrow> int \<Rightarrow> int \<Rightarrow> int \<Rightarrow> int \<times> int \<Rightarrow> nat \<Rightarrow> bool option" where
  "check_direction_loop e 0 x y role d cnt = Some False"
| "check_direction_loop e (Suc k) x y role (dx, dy) cnt =
     (if 0 \<le> x \<and> x < int (size_e e) \<and> 0 \<le> y \<and> y < int (size_e e) then
        (case cell (board e) (nat x) (nat y) of
           None \<Rightarrow> None
         | Some c \<Rightarrow>
             if c = role then
               (if cnt + 1 = 5 then Some True
                else check_direction_loop e k (x + dx) (y + dy) role (dx, dy) (cnt + 1))
             else Some False)
      else Some False)"

definition check_direction :: "engine \<Rightarrow> int \<Rightarrow> int \<Rightarrow> int \<Rightarrow> int \<times> int \<Rightarrow> bool option" where
  "check_direction e x y role direction = check_direction_loop e 5 x y role direction 0"

definition directions :: "(int \<times> int) list" where
  "directions = [(1, 0), (0, 1), (1, 1), (1, - 1)]"

definition win_at :: "engine \<Rightarrow> int \<Rightarrow> move \<Rightarrow> unit \<Rightarrow> (bool, unit) flow option" where
  "win_at e role = (\<lambda>(x, y) u.
     (case cell (board e) x y of
        None \<Rightarrow> None
      | Some c \<Rightarrow>
          if c = role then
            for_loop (\<lambda>d u. (case check_direction e (int x) (int y) role d of
                               None \<Rightarrow> None
                             | Some True \<Rightarrow> Some (Return True)
                             | Some False \<Rightarrow> Some (Continue u))) directions u
          else Some (Continue u)))"

definition is_winning_move :: "engine \<Rightarrow> int \<Rightarrow> bool option" where
  "is_winning_move e role =
     (case for_loop (win_at e role) (cells (size_e e)) () of
        None \<Rightarrow> None
      | Some (Return r) \<Rightarrow> Some r
      | Some (Continue u) \<Rightarrow> Some False)"


section \<open>MoveGenerator: \<^verbatim>\<open>available_moves\<close>\<close>

text \<open>The value a loop without \<^verbatim>\<open>return\<close> leaves in its state.\<close>

definition loop_result :: "('s, 's) flow option \<Rightarrow> 's option" where
  "loop_result r = (case r of None \<Rightarrow> None | Some (Return s) \<Rightarrow> Some s | Some (Continue s) \<Rightarrow> Some s)"

definition taken_moves :: "engine \<Rightarrow> move list option" where
  "taken_moves e =
     loop_result (for_loop (\<lambda>(x, y) acc.
        (case cell (board e) x y of
           None \<Rightarrow> None
         | Some c \<Rightarrow> Some (Continue (if c \<noteq> 0 then acc @ [(x, y)] else acc))))
        (cells (size_e e)) [])"

definition area_range :: int where
  "area_range = 2"

text \<open>The pairs (dx, dy) of the two inner loops, in their order.\<close>

definition offsets :: "(int \<times> int) list" where
  "offsets = List.product [- area_range..area_range] [- area_range..area_range]"

text \<open>The body of the three loops: the state is the sequence of cells added to the set.\<close>

definition add_neighbour ::
  "engine \<Rightarrow> move \<times> (int \<times> int) \<Rightarrow> move list \<Rightarrow> (move list, move list) flow option" where
  "add_neighbour e = (\<lambda>((x, y), (dx, dy)) added.
     (let nx = int x + dx; ny = int y + dy in
      if 0 \<le> nx \<and> nx < int (size_e e) \<and> 0 \<le> ny \<and> ny < int (size_e e) then
        (case cell (board e) (nat nx) (nat ny) of
           None \<Rightarrow> None
         | Some c \<Rightarrow> Some (Continue (if c = 0 then added @ [(nat nx, nat ny)] else added)))
      else Some (Continue added)))"

definition available_moves :: "set_listing \<Rightarrow> engine \<Rightarrow> move list option" where
  "available_moves sl e =
     (case taken_moves e of
        None \<Rightarrow> None
      | Some taken \<Rightarrow>
          (case loop_result (for_loop (add_neighbour e) (List.product taken offsets) []) of
             None \<Rightarrow> None
           | Some added \<Rightarrow> Some (sl added)))"

section \<open>Evaluator: \<^verbatim>\<open>evaluate_board\<close>, \<^verbatim>\<open>evaluate_lines\<close>, \<^verbatim>\<open>count_in_line\<close>\<close>

fun count_in_line_loop ::
  "engine \<Rightarrow> nat \<Rightarrow> int \<Rightarrow> int \<Rightarrow> int \<Rightarrow> int \<Rightarrow> int \<Rightarrow> nat \<Rightarrow> nat option" where
  "count_in_line_loop e 0 x y dx dy role cnt = Some cnt"
| "count_in_line_loop e (Suc k) x y dx dy role cnt =
     (if 0 \<le> x \<and> x < int (size_e e) \<and> 0 \<le> y \<and> y < int (size_e e) then
        (case cell (board e) (nat x) (nat y) of
           None \<Rightarrow> None
         | Some c \<Rightarrow>
             if c = role then count_in_line_loop e k (x + dx) (y + dy) dx dy role (cnt + 1)
             else Some cnt)
      else Some cnt)"

definition count_in_line :: "engine \<Rightarrow> int \<Rightarrow> int \<Rightarrow> int \<Rightarrow> int \<Rightarrow> int \<Rightarrow> nat option" where
  "count_in_line e x y dx dy role = count_in_line_loop e 5 x y dx dy role 0"

type_synonym line_cache = "nat \<times> nat \<times> int \<times> int \<rightharpoonup> nat"

text \<open>The body of the loop over the directions, with \<^verbatim>\<open>cached_scores\<close> in the state.\<close>

definition line_points ::
  "engine \<Rightarrow> int \<Rightarrow> nat \<Rightarrow> nat \<Rightarrow> int \<times> int \<Rightarrow> int \<times> line_cache \<Rightarrow> (int, int \<times> line_cache) flow option" where
  "line_points e role x y = (\<lambda>(dx, dy) (score, cached_scores).
     (case (case cached_scores (x, y, dx, dy) of
              None \<Rightarrow>
                (case count_in_line e (int x) (int y) dx dy role of
                   None \<Rightarrow> None
                 | Some len \<Rightarrow> Some (len, cached_scores((x, y, dx, dy) \<mapsto> len)))
            | Some len \<Rightarrow> Some (len, cached_scores)) of
        None \<Rightarrow> None
      | Some (len, cached_scores') \<Rightarrow>
          Some (if len = 5 then Return 10000
                else if len = 4 then Continue (score + 100, cached_scores')
                else if len = 3 then Continue (score + 10, cached_scores')
                else if len = 2 then Continue (score + 1, cached_scores')
                else Continue (score, cached_scores'))))"

definition lines_at ::
  "engine \<Rightarrow> int \<Rightarrow> move \<Rightarrow> int \<times> line_cache \<Rightarrow> (int, int \<times> line_cache) flow option" where
  "lines_at e role = (\<lambda>(x, y) st.
     (case cell (board e) x y of
        None \<Rightarrow> None
      | Some c \<Rightarrow> if c = role then for_loop (line_points e role x y) directions st
                  else Some (Continue st)))"

definition evaluate_lines :: "engine \<Rightarrow> int \<Rightarrow> int option" where
  "evaluate_lines e role =
     (case for_loop (lines_at e role) (cells (size_e e)) (0, Map.empty) of
        None \<Rightarrow> None
      | Some (Return r) \<Rightarrow> Some r
      | Some (Continue (score, cached_scores)) \<Rightarrow> Some score)"

subsection \<open>The float arithmetic of \<^verbatim>\<open>evaluate_board\<close>\<close>

text \<open>
  \<^verbatim>\<open>ai_score * 1.2 - opponent_score\<close> converts both integers to doubles (exactly, they
  are small) and rounds the product and the difference to the nearest double, ties to
  even. \<open>fl64\<close> is that rounding for values in the normal range of binary64, which
  all values here are.
\<close>

definition pow2 :: "int \<Rightarrow> rat" where
  "pow2 k = (if 0 \<le> k then 2 ^ nat k else 1 / 2 ^ nat (- k))"

text \<open>\<^verbatim>\<open>int.bit_length\<close> of a positive integer.\<close>

function bit_length :: "int \<Rightarrow> nat" where
  "bit_length n = (if n \<le> 0 then 0 else Suc (bit_length (n div 2)))"
  by pat_completeness auto
termination
  by (relation "measure nat") auto

declare bit_length.simps [simp del]

text \<open>For \<open>a > 0\<close>, the exponent \<open>k\<close> with \<open>2 ^ k \<le> a < 2 ^ (k + 1)\<close>.\<close>

definition binade :: "rat \<Rightarrow> int" where
  "binade a =
     (let (n, d) = quotient_of a;
          k = int (bit_length n) - int (bit_length d)
      in if pow2 k \<le> a then k else k - 1)"

definition round_half_even :: "rat \<Rightarrow> int" where
  "round_half_even q =
     (let f = \<lfloor>q\<rfloor>; r = q - of_int f
      in if r < 1 / 2 then f else if 1 / 2 < r then f + 1 else if even f then f else f + 1)"

definition fl64 :: "rat \<Rightarrow> rat" where
  "fl64 x =
     (if x = 0 then 0
      else (let ulp = pow2 (binade \<bar>x\<bar> - 52) in of_int (round_half_even (x / ulp)) * ulp))"

text \<open>The double written \<^verbatim>\<open>1.2\<close>.\<close>

definition float_1_2 :: rat where
  "float_1_2 = 5404319552844595 / 4503599627370496"

definition evaluate_board :: "engine \<Rightarrow> pyfloat option" where
  "evaluate_board e =
     (case evaluate_lines e (ai_role e) of
        None \<Rightarrow> None
      | Some ai_score \<Rightarrow>
          (case evaluate_lines e (opponent_role e) of
             None \<Rightarrow> None
           | Some opponent_score \<Rightarrow>
               Some (Fin (fl64 (fl64 (of_int ai_score * float_1_2) - of_int opponent_score)))))"

section \<open>SearchEngine: \<^verbatim>\<open>minimax\<close>\<close>

text \<open>
  Line 69: the stored score, when the fingerprint is in the table with a stored depth
  that is at least the requested one.
\<close>

definition cache_lookup :: "engine \<Rightarrow> 64 word \<Rightarrow> nat \<Rightarrow> pyfloat option" where
  "cache_lookup e hash_value d =
     (case transposition_table e hash_value of
        None \<Rightarrow> None
      | Some entry \<Rightarrow> if d \<le> tt_depth entry then Some (tt_score entry) else None)"

text \<open>Line 72, with the short-circuit order of \<^verbatim>\<open>or\<close>.\<close>

definition terminal :: "engine \<Rightarrow> nat \<Rightarrow> bool option" where
  "terminal e d =
     (if d = 0 then Some True
      else (case is_winning_move e (ai_role e) of
              None \<Rightarrow> None
            | Some True \<Rightarrow> Some True
            | Some False \<Rightarrow> is_winning_move e (opponent_role e)))"

text \<open>Line 74.\<close>

definition store :: "engine \<Rightarrow> 64 word \<Rightarrow> pyfloat \<Rightarrow> nat \<Rightarrow> engine" where
  "store e hash_value score d =
     e\<lparr>transposition_table :=
         (transposition_table e)(hash_value \<mapsto> \<lparr>tt_score = score, tt_depth = d\<rparr>)\<rparr>"

text \<open>Lines 88 to 95: the new alpha, beta and best move after a child scored \<open>ev\<close>.\<close>

definition improve ::
  "bool \<Rightarrow> pyfloat \<Rightarrow> move \<Rightarrow> pyfloat \<times> pyfloat \<times> move option \<Rightarrow> pyfloat \<times> pyfloat \<times> move option" where
  "improve maximizing_player ev mv = (\<lambda>(alpha, beta, best_move).
     if maximizing_player then
       (if alpha < ev then (ev, beta, Some mv) else (alpha, beta, best_move))
     else
       (if ev < beta then (alpha, ev, Some mv) else (alpha, beta, best_move)))"

text \<open>
  \<open>minimax\<close> is the method; \<open>minimax_moves\<close> is its loop over the candidate moves
  (lines 80 to 98), which gets the depth of the children, the running alpha, beta and
  best move, and the moves still to try. The depth is a number of plies, a natural
  number. The engine is passed through: the board is written and reset in place, the
  table grows.
\<close>

function minimax ::
    "ztable \<Rightarrow> set_listing \<Rightarrow> engine \<Rightarrow> nat \<Rightarrow> pyfloat \<Rightarrow> pyfloat \<Rightarrow> bool
       \<Rightarrow> ((pyfloat \<times> move option) \<times> engine) option"
  and minimax_moves ::
    "ztable \<Rightarrow> set_listing \<Rightarrow> engine \<Rightarrow> nat \<Rightarrow> pyfloat \<Rightarrow> pyfloat \<Rightarrow> bool \<Rightarrow> move option \<Rightarrow> move list
       \<Rightarrow> ((pyfloat \<times> pyfloat \<times> move option) \<times> engine) option"
where
  "minimax Z sl e d alpha beta maximizing_player =
     (case zobrist_hash Z e of
        None \<Rightarrow> None
      | Some hash_value \<Rightarrow>
          (case cache_lookup e hash_value d of
             Some score \<Rightarrow> Some ((score, None), e)
           | None \<Rightarrow>
               (case terminal e d of
                  None \<Rightarrow> None
                | Some True \<Rightarrow>
                    (case evaluate_board e of
                       None \<Rightarrow> None
                     | Some score \<Rightarrow> Some ((score, None), store e hash_value score d))
                | Some False \<Rightarrow>
                    (case available_moves sl e of
                       None \<Rightarrow> None
                     | Some moves \<Rightarrow>
                         (case minimax_moves Z sl e (d - 1) alpha beta maximizing_player None moves of
                            None \<Rightarrow> None
                          | Some ((alpha', beta', best_move), e') \<Rightarrow>
                              Some ((if maximizing_player then alpha' else beta', best_move), e'))))))"
| "minimax_moves Z sl e d alpha beta maximizing_player best_move [] =
     Some ((alpha, beta, best_move), e)"
| "minimax_moves Z sl e d alpha beta maximizing_player best_move ((x, y) # moves) =
     (case set_cell (board e) x y (if maximizing_player then ai_role e else opponent_role e) of
        None \<Rightarrow> None
      | Some placed \<Rightarrow>
          (case minimax Z sl (e\<lparr>board := placed\<rparr>) d alpha beta (\<not> maximizing_player) of
             None \<Rightarrow> None
           | Some ((ev, m), e1) \<Rightarrow>
               (case set_cell (board e1) x y 0 of
                  None \<Rightarrow> None
                | Some undone \<Rightarrow>
                    (case improve maximizing_player ev (x, y) (alpha, beta, best_move) of
                       (alpha', beta', best_move') \<Rightarrow>
                         if beta' \<le> alpha' then Some ((alpha', beta', best_move'), e1\<lparr>board := undone\<rparr>)
                         else minimax_moves Z sl (e1\<lparr>board := undone\<rparr>) d alpha' beta'
                                maximizing_player best_move' moves))))"
  by pat_completeness auto

termination
proof (relation "inv_image (less_than <*lex*> less_than)
    (\<lambda>s. case s of
           Inl (Z, sl, e, d, alpha, beta, mp) \<Rightarrow> (2 * d, 0)
         | Inr (Z, sl, e, d, alpha, beta, mp, best, moves) \<Rightarrow> (2 * d + 1, length moves))", goal_cases)
  case 1
  show ?case by (rule wf_inv_image) (rule wf_lex_prod; rule wf_less_than)
next
  case (2 Z sl e d alpha beta mp h t moves)
  have "d \<noteq> 0"
  proof
    assume "d = 0"
    with 2 show False by (simp add: terminal_def)
  qed
  then show ?case by simp
next
  case 3
  then show ?case by simp
next
  case 4
  then show ?case by simp
qed

section \<open>Well-formed engines and specification-level notions\<close>

text \<open>
  An engine as \<^verbatim>\<open>Minimax(board, depth)\<close> builds it on a square board of at most 20
  rows whose cells are 0, 1 or 2. On other boards the source raises \<^verbatim>\<open>IndexError\<close>
  (a short row, a row or column beyond the Zobrist table).
\<close>

definition well_formed :: "engine \<Rightarrow> bool" where
  "well_formed e =
     (size_e e = length (board e) \<and> size_e e \<le> 20
      \<and> (\<forall>row \<in> set (board e). length row = size_e e \<and> (\<forall>c \<in> set row. c = 0 \<or> c = 1 \<or> c = 2))
      \<and> ai_role e = 1 \<and> opponent_role e = 2)"

text \<open>The occupied cells, row by row.\<close>

definition occupied :: "engine \<Rightarrow> move list" where
  "occupied e = filter (\<lambda>(x, y). board e ! x ! y \<noteq> 0) (cells (size_e e))"

definition xor_entry :: "ztable \<Rightarrow> grid \<Rightarrow> move \<Rightarrow> 64 word \<Rightarrow> 64 word" where
  "xor_entry Z b = (\<lambda>(x, y) h. h XOR Z x y (nat (b ! x ! y)))"

text \<open>A Zobrist table and a listing of sets to run the model on.\<close>

definition Z0 :: ztable where
  "Z0 x y p = word_of_nat (1 + p + 3 * (y + 20 * x))"

text \<open>The cell (x, y) is on the board and holds \<open>role\<close>.\<close>

definition holds :: "engine \<Rightarrow> int \<Rightarrow> int \<Rightarrow> int \<Rightarrow> bool" where
  "holds e role x y =
     (0 \<le> x \<and> x < int (size_e e) \<and> 0 \<le> y \<and> y < int (size_e e) \<and> board e ! nat x ! nat y = role)"

text \<open>Five cells from (x, y) in steps of (dx, dy) all hold \<open>role\<close>.\<close>

definition five_from :: "engine \<Rightarrow> int \<Rightarrow> int \<Rightarrow> int \<Rightarrow> int \<times> int \<Rightarrow> bool" where
  "five_from e role x y = (\<lambda>(dx, dy). \<forall>i<5. holds e role (x + int i * dx) (y + int i * dy))"

text \<open>
  Some five consecutive cells of a row, a column or a diagonal all hold \<open>role\<close>: a
  line of five cells has a first cell and one of the four directions.
\<close>

definition five_in_a_row :: "engine \<Rightarrow> int \<Rightarrow> bool" where
  "five_in_a_row e role =
     (\<exists>x y d. d \<in> {(1, 0), (0, 1), (1, 1), (1, - 1)} \<and> five_from e role x y d)"

text \<open>
  The number of consecutive cells holding \<open>role\<close> from (x, y) in steps of (dx, dy),
  looking at no more than \<open>k\<close> cells.
\<close>

fun run_length :: "engine \<Rightarrow> int \<Rightarrow> nat \<Rightarrow> int \<Rightarrow> int \<Rightarrow> int \<Rightarrow> int \<Rightarrow> nat" where
  "run_length e role 0 x y dx dy = 0"
| "run_length e role (Suc k) x y dx dy =
     (if holds e role x y then Suc (run_length e role k (x + dx) (y + dy) dx dy) else 0)"

definition run_from :: "engine \<Rightarrow> int \<Rightarrow> move \<Rightarrow> int \<times> int \<Rightarrow> nat" where
  "run_from e role = (\<lambda>(x, y) (dx, dy). run_length e role 5 (int x) (int y) dx dy)"

text \<open>The points of a run: 4 gives 100, 3 gives 10, 2 gives 1, less gives nothing.\<close>

definition points :: "nat \<Rightarrow> int" where
  "points len = (if len = 4 then 100 else if len = 3 then 10 else if len = 2 then 1 else 0)"

text \<open>The cells of a role, row by row.\<close>

definition stones :: "engine \<Rightarrow> int \<Rightarrow> move list" where
  "stones e role = filter (\<lambda>(x, y). board e ! x ! y = role) (cells (size_e e))"

text \<open>
  The line score as the specification words it: the fixed bonus when some stone of the
  role starts a run of five, and else the sum of the points over all pairs of a stone
  of the role and a direction.
\<close>

definition line_score :: "engine \<Rightarrow> int \<Rightarrow> int" where
  "line_score e role =
     (if \<exists>c\<in>set (stones e role). \<exists>d\<in>set directions. run_from e role c d = 5 then 10000
      else (\<Sum>c\<leftarrow>stones e role. \<Sum>d\<leftarrow>directions. points (run_from e role c d)))"

text \<open>A board with three stones of role 1 in a row and one stone of role 2.\<close>

definition three_board :: grid where
  "three_board =
     [[0, 0, 0, 0, 0],
      [0, 1, 1, 1, 0],
      [0, 0, 0, 0, 0],
      [0, 0, 0, 2, 0],
      [0, 0, 0, 0, 0]]"

text \<open>What one round of the three loops of \<open>available_moves\<close> adds to the set.\<close>

definition neighbour :: "engine \<Rightarrow> move \<times> (int \<times> int) \<Rightarrow> move list" where
  "neighbour e = (\<lambda>((x, y), (dx, dy)).
     if holds e 0 (int x + dx) (int y + dy) then [(nat (int x + dx), nat (int y + dy))] else [])"

text \<open>The sequence of cells added to the set.\<close>

definition added :: "engine \<Rightarrow> move list" where
  "added e = concat (map (neighbour e) (List.product (occupied e) offsets))"

text \<open>
  The candidate cells as the specification words them: the empty cells of the board
  within Chebyshev distance 2 of an occupied cell.
\<close>

definition candidates :: "engine \<Rightarrow> move set" where
  "candidates e =
     {(nx, ny). nx < size_e e \<and> ny < size_e e \<and> board e ! nx ! ny = 0
        \<and> (\<exists>(x, y)\<in>set (occupied e). \<bar>int nx - int x\<bar> \<le> 2 \<and> \<bar>int ny - int y\<bar> \<le> 2)}"

text \<open>Ascending by row, then by column.\<close>

definition row_col_less :: "move \<Rightarrow> move \<Rightarrow> bool" where
  "row_col_less = (\<lambda>(x, y) (x', y'). x < x' \<or> (x = x' \<and> y < y'))"

definition ascending :: "move list \<Rightarrow> bool" where
  "ascending ms = sorted_wrt row_col_less ms"

text \<open>
  The order in which CPython 3.11 lists the candidates of a 3 by 3 board with one stone
  in the middle, and a listing of sets that yields it.
\<close>

definition cpython_order :: "move list" where
  "cpython_order = [(0, 1), (1, 2), (2, 1), (0, 0), (2, 0), (0, 2), (2, 2), (1, 0)]"

definition listing_cpython :: set_listing where
  "listing_cpython xs = (if set xs = set cpython_order then cpython_order else remdups xs)"

definition centre_board :: grid where
  "centre_board = [[0, 0, 0], [0, 1, 0], [0, 0, 0]]"

section \<open>Notions for the search\<close>

declare minimax.simps [simp del]

text \<open>The board with \<open>v\<close> written to the cell (x, y).\<close>

definition place :: "grid \<Rightarrow> nat \<Rightarrow> nat \<Rightarrow> int \<Rightarrow> grid" where
  "place b x y v = b[x := (b ! x)[y := v]]"

text \<open>Two engines that differ in the transposition table at most.\<close>

definition frame :: "engine \<Rightarrow> engine \<Rightarrow> bool" where
  "frame e e' =
     (board e' = board e \<and> size_e e' = size_e e \<and> max_depth e' = max_depth e
      \<and> ai_role e' = ai_role e \<and> opponent_role e' = opponent_role e)"

text \<open>
  Every key of the first table is in the second with a depth that is not smaller, and
  with the same entry when the depth is the same.
\<close>

definition table_grows :: "(64 word \<rightharpoonup> tt_entry) \<Rightarrow> (64 word \<rightharpoonup> tt_entry) \<Rightarrow> bool" where
  "table_grows t t' =
     (\<forall>k entry. t k = Some entry \<longrightarrow>
        (\<exists>entry'. t' k = Some entry' \<and> tt_depth entry \<le> tt_depth entry'
           \<and> (tt_depth entry' = tt_depth entry \<longrightarrow> entry' = entry)))"

text \<open>What a call of \<open>minimax\<close> on \<open>e\<close> that returns \<open>r\<close> and leaves \<open>e'\<close> keeps.\<close>

definition call_ok :: "engine \<Rightarrow> move option \<Rightarrow> engine \<Rightarrow> bool" where
  "call_ok e mv e' =
     (frame e e' \<and> table_grows (transposition_table e) (transposition_table e')
      \<and> (\<forall>m. mv = Some m \<longrightarrow> m \<in> candidates e))"

text \<open>
  Lines 72 to 100 of \<open>minimax\<close>: what a call does after a miss in the table, with
  the fingerprint \<open>h\<close> it has computed.
\<close>

definition search_node ::
  "ztable \<Rightarrow> set_listing \<Rightarrow> engine \<Rightarrow> 64 word \<Rightarrow> nat \<Rightarrow> pyfloat \<Rightarrow> pyfloat \<Rightarrow> bool
     \<Rightarrow> ((pyfloat \<times> move option) \<times> engine) option" where
  "search_node Z sl e h d alpha beta mx =
     (case terminal e d of
        None \<Rightarrow> None
      | Some True \<Rightarrow>
          (case evaluate_board e of
             None \<Rightarrow> None
           | Some score \<Rightarrow> Some ((score, None), store e h score d))
      | Some False \<Rightarrow>
          (case available_moves sl e of
             None \<Rightarrow> None
           | Some moves \<Rightarrow>
               (case minimax_moves Z sl e (d - 1) alpha beta mx None moves of
                  None \<Rightarrow> None
                | Some ((alpha', beta', best_move), e') \<Rightarrow>
                    Some ((if mx then alpha' else beta', best_move), e'))))"

text \<open>Engines to run the model on.\<close>

definition corner_engine :: engine where
  "corner_engine = init_engine [[1, 0], [0, 0]] 3"

definition cached_engine :: engine where
  "cached_engine =
     corner_engine\<lparr>transposition_table := [Z0 0 0 1 \<mapsto> \<lparr>tt_score = Fin 7, tt_depth = 2\<rparr>]\<rparr>"

definition empty_engine :: engine where
  "empty_engine = init_engine [[0, 0, 0], [0, 0, 0], [0, 0, 0]] 3"

section \<open>The exhaustive minimax of the specification\<close>

text \<open>
  The terminal test, the static score and the candidate moves of a position, for
  use in pure functions: on a well-formed engine none of the three raises.
\<close>

definition is_terminal :: "engine \<Rightarrow> nat \<Rightarrow> bool" where
  "is_terminal p d = (terminal p d = Some True)"

definition static :: "engine \<Rightarrow> pyfloat" where
  "static p = (case evaluate_board p of None \<Rightarrow> Fin 0 | Some s \<Rightarrow> s)"

definition moves_of :: "set_listing \<Rightarrow> engine \<Rightarrow> move list" where
  "moves_of sl p = (case available_moves sl p of None \<Rightarrow> [] | Some ms \<Rightarrow> ms)"

text \<open>The position after the side to move (the engine's role when maximizing) took a cell.\<close>

definition child :: "engine \<Rightarrow> move \<Rightarrow> bool \<Rightarrow> engine" where
  "child p = (\<lambda>(x, y) mx.
     p\<lparr>board := place (board p) x y (if mx then ai_role p else opponent_role p)\<rparr>)"

text \<open>
  The best of the scored moves: the greatest score when maximizing, the least when
  minimizing, with the first move in the enumeration that has it.
\<close>

definition pick_best :: "bool \<Rightarrow> (pyfloat \<times> move) list \<Rightarrow> pyfloat \<times> move option" where
  "pick_best mx xs =
     (let best = (if mx then Max (set (map fst xs)) else Min (set (map fst xs)))
      in (best, map_option snd (find (\<lambda>(s, m). s = best) xs)))"

text \<open>
  Exhaustive minimax, without pruning and without a table, over the same terminal
  test, static score and candidate enumeration. A node without candidates has its
  static score and no move, as section 4.5 of the specification words it.
\<close>

fun exhaustive :: "set_listing \<Rightarrow> engine \<Rightarrow> nat \<Rightarrow> bool \<Rightarrow> pyfloat \<times> move option" where
  "exhaustive sl p 0 mx = (static p, None)"
| "exhaustive sl p (Suc d) mx =
     (if is_terminal p (Suc d) \<or> moves_of sl p = [] then (static p, None)
      else pick_best mx (map (\<lambda>m. (fst (exhaustive sl (child p m mx) d (\<not> mx)), m)) (moves_of sl p)))"

text \<open>No node of the search tree that is searched further is without candidates.\<close>

fun no_dead_end :: "set_listing \<Rightarrow> engine \<Rightarrow> nat \<Rightarrow> bool \<Rightarrow> bool" where
  "no_dead_end sl p 0 mx = True"
| "no_dead_end sl p (Suc d) mx =
     (is_terminal p (Suc d) \<or>
      (moves_of sl p \<noteq> [] \<and> list_all (\<lambda>m. no_dead_end sl (child p m mx) d (\<not> mx)) (moves_of sl p)))"

text \<open>The boards of the search tree.\<close>

fun reach :: "set_listing \<Rightarrow> engine \<Rightarrow> nat \<Rightarrow> bool \<Rightarrow> grid list" where
  "reach sl p 0 mx = [board p]"
| "reach sl p (Suc d) mx =
     board p # (if is_terminal p (Suc d) then []
                else concat (map (\<lambda>m. reach sl (child p m mx) d (\<not> mx)) (moves_of sl p)))"

text \<open>No two boards of a list have the same fingerprint.\<close>

definition collision_free :: "ztable \<Rightarrow> engine \<Rightarrow> grid list \<Rightarrow> bool" where
  "collision_free Z p bs =
     list_all (\<lambda>b1. list_all (\<lambda>b2.
        zobrist_hash Z (p\<lparr>board := b1\<rparr>) = zobrist_hash Z (p\<lparr>board := b2\<rparr>) \<longrightarrow> b1 = b2) bs) bs"

text \<open>The search of \<open>minimax\<close> without the fingerprint and the table.\<close>

function ab :: "set_listing \<Rightarrow> engine \<Rightarrow> nat \<Rightarrow> pyfloat \<Rightarrow> pyfloat \<Rightarrow> bool \<Rightarrow> pyfloat \<times> move option"
  and ab_moves ::
    "set_listing \<Rightarrow> engine \<Rightarrow> nat \<Rightarrow> pyfloat \<Rightarrow> pyfloat \<Rightarrow> bool \<Rightarrow> move option \<Rightarrow> move list
       \<Rightarrow> pyfloat \<times> pyfloat \<times> move option"
where
  "ab sl p d alpha beta mx =
     (if d = 0 \<or> is_terminal p d then (static p, None)
      else (case ab_moves sl p (d - 1) alpha beta mx None (moves_of sl p) of
              (alpha', beta', best_move) \<Rightarrow> (if mx then alpha' else beta', best_move)))"
| "ab_moves sl p d alpha beta mx best_move [] = (alpha, beta, best_move)"
| "ab_moves sl p d alpha beta mx best_move (m # moves) =
     (case improve mx (fst (ab sl (child p m mx) d alpha beta (\<not> mx))) m (alpha, beta, best_move) of
        (alpha', beta', best_move') \<Rightarrow>
          if beta' \<le> alpha' then (alpha', beta', best_move')
          else ab_moves sl p d alpha' beta' mx best_move' moves)"
  by pat_completeness auto
termination
proof (relation "inv_image (less_than <*lex*> less_than)
    (\<lambda>s. case s of
           Inl (sl, p, d, alpha, beta, mx) \<Rightarrow> (2 * d, 0)
         | Inr (sl, p, d, alpha, beta, mx, best, moves) \<Rightarrow> (2 * d + 1, length moves))", goal_cases)
  case 1
  show ?case by (rule wf_inv_image) (rule wf_lex_prod; rule wf_less_than)
qed auto

declare ab.simps [simp del]

text \<open>
  The entries of a table are right for the boards of a list: the stored score is the
  static score of the board, which is terminal at the stored depth.
\<close>

definition table_ok :: "ztable \<Rightarrow> engine \<Rightarrow> grid set \<Rightarrow> (64 word \<rightharpoonup> tt_entry) \<Rightarrow> bool" where
  "table_ok Z p T t =
     (\<forall>b\<in>T. \<forall>h entry. zobrist_hash Z (p\<lparr>board := b\<rparr>) = Some h \<and> t h = Some entry \<longrightarrow>
        static (p\<lparr>board := b\<rparr>) = tt_score entry \<and> is_terminal (p\<lparr>board := b\<rparr>) (tt_depth entry))"


text \<open>A Zobrist table without collisions on boards of up to 5 rows.\<close>

definition Z1 :: ztable where
  "Z1 x y p = push_bit ((2 * (y + 5 * x) + p - 1) mod 62) 1"

definition full_but_one :: engine where
  "full_but_one = init_engine [[1, 2, 1], [1, 2, 2], [2, 1, 0]] 3"

text \<open>
  What a search with the window from \<open>alpha\<close> to \<open>beta\<close> may return for a node of
  value \<open>v\<close>: the value when it is inside the window, and else something on the same
  side of the window.
\<close>

definition bound_ok :: "pyfloat \<Rightarrow> pyfloat \<Rightarrow> pyfloat \<Rightarrow> pyfloat \<Rightarrow> bool" where
  "bound_ok alpha beta v r =
     ((v \<le> alpha \<longrightarrow> r \<le> alpha) \<and> (alpha < v \<and> v < beta \<longrightarrow> r = v) \<and> (beta \<le> v \<longrightarrow> beta \<le> r))"

definition three_left :: engine where
  "three_left = init_engine [[1, 2, 1], [2, 1, 2], [0, 0, 0]] 3"

text \<open>
  The table that a call of depth 0 leaves on the board of \<open>three_left\<close> with two more
  stones, at (2, 0) and (2, 1): the fingerprint of that board under \<open>Z1\<close> with its
  static score.
\<close>

definition three_left_table :: "64 word \<rightharpoonup> tt_entry" where
  "three_left_table =
     [9476121 \<mapsto> \<lparr>tt_score = Fin (1463669878895411 / 140737488355328), tt_depth = 0\<rparr>]"

definition four_left :: engine where
  "four_left = init_engine [[1, 2, 1], [2, 1, 0], [0, 0, 0]] 3"

section \<open>The calls that \<open>minimax\<close> makes\<close>

text \<open>
  The methods of the engine that \<open>minimax\<close> calls: \<^verbatim>\<open>zobrist_hash\<close> (line 68),
  \<^verbatim>\<open>is_winning_move\<close> with a role (line 72), \<^verbatim>\<open>evaluate_board\<close> (line 73),
  \<^verbatim>\<open>available_moves\<close> (line 78) and \<^verbatim>\<open>minimax\<close> itself with a depth (line 84).
\<close>

datatype call =
  Call_zobrist_hash
| Call_is_winning_move int
| Call_evaluate_board
| Call_available_moves
| Call_minimax nat

text \<open>Line 72 with the calls it makes: \<^verbatim>\<open>or\<close> stops at the first true operand.\<close>

definition terminal_traced :: "engine \<Rightarrow> nat \<Rightarrow> bool option \<times> call list" where
  "terminal_traced e d =
     (if d = 0 then (Some True, [])
      else (case is_winning_move e (ai_role e) of
              None \<Rightarrow> (None, [Call_is_winning_move (ai_role e)])
            | Some True \<Rightarrow> (Some True, [Call_is_winning_move (ai_role e)])
            | Some False \<Rightarrow>
                (is_winning_move e (opponent_role e),
                 [Call_is_winning_move (ai_role e), Call_is_winning_move (opponent_role e)])))"

text \<open>
  \<open>minimax\<close> and its loop once more, returning in addition the calls made, in their
  order; the calls of a recursive call follow its \<open>Call_minimax\<close>.
\<close>

function minimax_traced ::
    "ztable \<Rightarrow> set_listing \<Rightarrow> engine \<Rightarrow> nat \<Rightarrow> pyfloat \<Rightarrow> pyfloat \<Rightarrow> bool
       \<Rightarrow> ((pyfloat \<times> move option) \<times> engine \<times> call list) option"
  and minimax_moves_traced ::
    "ztable \<Rightarrow> set_listing \<Rightarrow> engine \<Rightarrow> nat \<Rightarrow> pyfloat \<Rightarrow> pyfloat \<Rightarrow> bool \<Rightarrow> move option \<Rightarrow> move list
       \<Rightarrow> ((pyfloat \<times> pyfloat \<times> move option) \<times> engine \<times> call list) option"
where
  "minimax_traced Z sl e d alpha beta maximizing_player =
     (case zobrist_hash Z e of
        None \<Rightarrow> None
      | Some hash_value \<Rightarrow>
          (case cache_lookup e hash_value d of
             Some score \<Rightarrow> Some ((score, None), e, [Call_zobrist_hash])
           | None \<Rightarrow>
               (case terminal_traced e d of
                  (None, calls) \<Rightarrow> None
                | (Some True, calls) \<Rightarrow>
                    (case evaluate_board e of
                       None \<Rightarrow> None
                     | Some score \<Rightarrow>
                         Some ((score, None), store e hash_value score d,
                               Call_zobrist_hash # calls @ [Call_evaluate_board]))
                | (Some False, calls) \<Rightarrow>
                    (case available_moves sl e of
                       None \<Rightarrow> None
                     | Some moves \<Rightarrow>
                         (case minimax_moves_traced Z sl e (d - 1) alpha beta maximizing_player None moves of
                            None \<Rightarrow> None
                          | Some ((alpha', beta', best_move), e', calls') \<Rightarrow>
                              Some ((if maximizing_player then alpha' else beta', best_move), e',
                                    Call_zobrist_hash # calls @ Call_available_moves # calls'))))))"
| "minimax_moves_traced Z sl e d alpha beta maximizing_player best_move [] =
     Some ((alpha, beta, best_move), e, [])"
| "minimax_moves_traced Z sl e d alpha beta maximizing_player best_move ((x, y) # moves) =
     (case set_cell (board e) x y (if maximizing_player then ai_role e else opponent_role e) of
        None \<Rightarrow> None
      | Some placed \<Rightarrow>
          (case minimax_traced Z sl (e\<lparr>board := placed\<rparr>) d alpha beta (\<not> maximizing_player) of
             None \<Rightarrow> None
           | Some ((ev, m), e1, calls1) \<Rightarrow>
               (case set_cell (board e1) x y 0 of
                  None \<Rightarrow> None
                | Some undone \<Rightarrow>
                    (case improve maximizing_player ev (x, y) (alpha, beta, best_move) of
                       (alpha', beta', best_move') \<Rightarrow>
                         if beta' \<le> alpha'
                         then Some ((alpha', beta', best_move'), e1\<lparr>board := undone\<rparr>,
                                    Call_minimax d # calls1)
                         else (case minimax_moves_traced Z sl (e1\<lparr>board := undone\<rparr>) d alpha' beta'
                                      maximizing_player best_move' moves of
                                 None \<Rightarrow> None
                               | Some (r, e2, calls2) \<Rightarrow>
                                   Some (r, e2, Call_minimax d # calls1 @ calls2))))))"
  by pat_completeness auto
termination
proof (relation "inv_image (less_than <*lex*> less_than)
    (\<lambda>s. case s of
           Inl (Z, sl, e, d, alpha, beta, mp) \<Rightarrow> (2 * d, 0)
         | Inr (Z, sl, e, d, alpha, beta, mp, best, moves) \<Rightarrow> (2 * d + 1, length moves))", goal_cases)
  case 1
  show ?case by (rule wf_inv_image) (rule wf_lex_prod; rule wf_less_than)
next
  case (2 Z sl e d alpha beta mp h t calls b moves)
  have "d \<noteq> 0"
  proof
    assume "d = 0"
    with 2 show False by (simp add: terminal_traced_def)
  qed
  then show ?case by simp
next
  case 3
  then show ?case by simp
next
  case 4
  then show ?case by simp
qed

declare minimax_traced.simps [simp del]

text \<open>Dropping the calls from a result.\<close>

definition untraced :: "('r \<times> engine \<times> call list) option \<Rightarrow> ('r \<times> engine) option" where
  "untraced r = map_option (\<lambda>(v, e, calls). (v, e)) r"

section \<open>Properties\<close>

subsection \<open>Loops and cells\<close>

lemma for_loop_fold:
  "(\<And>x s. x \<in> set xs \<Longrightarrow> body x s = Some (Continue (f x s)))
     \<Longrightarrow> for_loop body xs s = Some (Continue (fold f xs s))"
  by (induction xs arbitrary: s) simp_all

lemma set_cells: "set (cells n) = {(x, y). x < n \<and> y < n}"
  by (auto simp: cells_def)

lemma distinct_cells: "distinct (cells n)"
  by (simp add: cells_def distinct_product)

lemma wf_cell:
  "well_formed e \<Longrightarrow> x < size_e e \<Longrightarrow> y < size_e e \<Longrightarrow> cell (board e) x y = Some (board e ! x ! y)"
  by (simp add: well_formed_def cell_def)

lemma wf_piece:
  "well_formed e \<Longrightarrow> x < size_e e \<Longrightarrow> y < size_e e
     \<Longrightarrow> board e ! x ! y = 0 \<or> board e ! x ! y = 1 \<or> board e ! x ! y = 2"
proof -
  assume wf: "well_formed e" and xy: "x < size_e e" "y < size_e e"
  then have "board e ! x \<in> set (board e)"
    by (simp add: well_formed_def)
  with wf xy have "board e ! x ! y \<in> set (board e ! x)"
    by (simp add: well_formed_def)
  with wf \<open>board e ! x \<in> set (board e)\<close> show ?thesis
    unfolding well_formed_def by blast
qed

lemma wf_hash_cell:
  assumes "well_formed e" "(x, y) \<in> set (cells (size_e e))"
  shows "hash_cell Z (board e) (x, y) h =
     Some (Continue (if board e ! x ! y \<noteq> 0 then h XOR Z x y (nat (board e ! x ! y)) else h))"
proof -
  from assms have xy: "x < size_e e" "y < size_e e"
    by (simp_all add: set_cells)
  moreover from assms(1) have "size_e e \<le> 20"
    by (simp add: well_formed_def)
  ultimately show ?thesis
    using wf_cell [OF assms(1) xy] wf_piece [OF assms(1) xy]
    by (auto simp: hash_cell_def zobrist_entry_def)
qed

lemma fold_if_filter:
  "fold (\<lambda>x s. if P x then f x s else s) xs s = fold f (filter P xs) s"
  by (induction xs arbitrary: s) simp_all

lemma zobrist_hash_occupied:
  assumes "well_formed e"
  shows "zobrist_hash Z e = Some (fold (xor_entry Z (board e)) (occupied e) 0)"
proof -
  let ?f = "\<lambda>(x, y) h. if (\<lambda>(x, y). board e ! x ! y \<noteq> 0) (x, y) then xor_entry Z (board e) (x, y) h else h"
  have "for_loop (hash_cell Z (board e)) (cells (size_e e)) 0
      = Some (Continue (fold ?f (cells (size_e e)) 0))"
    by (rule for_loop_fold) (auto simp: wf_hash_cell [OF assms] xor_entry_def)
  also have "?f = (\<lambda>c h. if (\<lambda>(x, y). board e ! x ! y \<noteq> 0) c then xor_entry Z (board e) c h else h)"
    by auto
  finally show ?thesis
    by (simp add: zobrist_hash_def fold_if_filter occupied_def)
qed

lemma xor_entry_commute: "xor_entry Z b c \<circ> xor_entry Z b c' = xor_entry Z b c' \<circ> xor_entry Z b c"
  by (cases c; cases c') (simp add: xor_entry_def fun_eq_iff xor.commute xor.left_commute)

lemma distinct_occupied: "distinct (occupied e)"
  by (simp add: occupied_def distinct_cells)

text \<open>
  C8: on a well-formed engine the fingerprint is the exclusive-or of the table entries
  of exactly the occupied cells, taken in any order; it is a value, the engine is not
  changed. So it depends on which cells hold which role and not on the order in which
  the stones are listed or were placed.
\<close>

theorem zobrist_hash_xor_of_occupied:
  assumes "well_formed e" and "distinct cs" and "set cs = set (occupied e)"
  shows "zobrist_hash Z e = Some (fold (\<lambda>(x, y) h. h XOR Z x y (nat (board e ! x ! y))) cs 0)"
proof -
  have "mset cs = mset (occupied e)"
    using assms(2,3) distinct_occupied by (simp add: set_eq_iff_mset_eq_distinct)
  then have "fold (xor_entry Z (board e)) cs = fold (xor_entry Z (board e)) (occupied e)"
    by (rule fold_multiset_equiv [rotated]) (rule xor_entry_commute)
  then show ?thesis
    using zobrist_hash_occupied [OF assms(1), of Z] by (simp add: xor_entry_def)
qed

theorem zobrist_hash_xor_of_occupied_witness:
  "well_formed (init_engine [[0, 1], [2, 0]] 3) \<and> distinct [(1 :: nat, 0 :: nat), (0, 1)]
   \<and> set [(1 :: nat, 0 :: nat), (0, 1)] = set (occupied (init_engine [[0, 1], [2, 0]] 3))
   \<and> zobrist_hash Z0 (init_engine [[0, 1], [2, 0]] 3) = Some (Z0 1 0 2 XOR Z0 0 1 1)"
proof -
  have wf: "well_formed (init_engine [[0, 1], [2, 0]] 3)"
    by (simp add: well_formed_def init_engine_def)
  have occ: "set [(1 :: nat, 0 :: nat), (0, 1)] = set (occupied (init_engine [[0, 1], [2, 0]] 3))"
    by (auto simp: occupied_def init_engine_def cells_def upt_conv_Cons)
  have d: "distinct [(1 :: nat, 0 :: nat), (0, 1)]" by simp
  show ?thesis
    using zobrist_hash_xor_of_occupied [OF wf d occ, of Z0] wf occ
    by (simp add: init_engine_def)
qed

subsection \<open>WinDetector\<close>

lemma for_loop_search:
  "(\<And>x. x \<in> set xs \<Longrightarrow> body x s = Some (if P x then Return r else Continue s))
     \<Longrightarrow> for_loop body xs s = Some (if \<exists>x\<in>set xs. P x then Return r else Continue s)"
  by (induction xs) auto

lemma wf_cell_int:
  "well_formed e \<Longrightarrow> 0 \<le> x \<Longrightarrow> x < int (size_e e) \<Longrightarrow> 0 \<le> y \<Longrightarrow> y < int (size_e e)
     \<Longrightarrow> cell (board e) (nat x) (nat y) = Some (board e ! nat x ! nat y)"
  by (rule wf_cell) auto

lemma check_direction_loop_holds:
  "well_formed e \<Longrightarrow> k + c = 5 \<Longrightarrow>
     check_direction_loop e k x y role (dx, dy) c =
       Some (0 < k \<and> (\<forall>i<k. holds e role (x + int i * dx) (y + int i * dy)))"
proof (induction k arbitrary: x y c)
  case 0
  then show ?case by simp
next
  case (Suc k)
  show ?case
  proof (cases "holds e role x y")
    case False
    then have "\<not> (\<forall>i<Suc k. holds e role (x + int i * dx) (y + int i * dy))"
      by (auto intro: exI [of _ 0])
    with False Suc.prems show ?thesis
      by (auto simp: holds_def wf_cell_int)
  next
    case True
    have all: "(\<forall>i<Suc k. holds e role (x + int i * dx) (y + int i * dy))
        = (\<forall>i<k. holds e role (x + dx + int i * dx) (y + dy + int i * dy))"
      (is "?L = ?R")
    proof
      assume l: ?L
      show ?R
      proof (intro allI impI)
        fix i assume "i < k"
        with l have "holds e role (x + int (Suc i) * dx) (y + int (Suc i) * dy)"
          by (metis Suc_less_eq)
        then show "holds e role (x + dx + int i * dx) (y + dy + int i * dy)"
          by (simp add: algebra_simps)
      qed
    next
      assume r: ?R
      show ?L
      proof (intro allI impI)
        fix i assume i: "i < Suc k"
        show "holds e role (x + int i * dx) (y + int i * dy)"
        proof (cases i)
          case 0
          with True show ?thesis by simp
        next
          case (Suc j)
          with i r have "holds e role (x + dx + int j * dx) (y + dy + int j * dy)"
            by simp
          with Suc show ?thesis by (simp add: algebra_simps)
        qed
      qed
    qed
    from True Suc.prems(1) have step:
      "check_direction_loop e (Suc k) x y role (dx, dy) c =
         (if c + 1 = 5 then Some True
          else check_direction_loop e k (x + dx) (y + dy) role (dx, dy) (c + 1))"
      by (simp add: holds_def wf_cell_int)
    show ?thesis
    proof (cases "k = 0")
      case k0: True
      with Suc.prems True show ?thesis
        unfolding step by simp
    next
      case False
      with Suc.prems have c: "c + 1 \<noteq> 5" and kc: "k + (c + 1) = 5"
        by auto
      show ?thesis
        unfolding step all using c False Suc.IH [OF Suc.prems(1) kc, of "x + dx" "y + dy"]
        by simp
    qed
  qed
qed

lemma check_direction_five:
  "well_formed e \<Longrightarrow> check_direction e x y role d = Some (five_from e role x y d)"
  by (cases d) (simp add: check_direction_def check_direction_loop_holds five_from_def)

lemma win_at_search:
  assumes "well_formed e" "c \<in> set (cells (size_e e))"
  shows "win_at e role c u =
     Some (if (\<lambda>(x, y). \<exists>d\<in>set directions. five_from e role (int x) (int y) d) c
           then Return True else Continue u)"
proof -
  obtain x y where c: "c = (x, y)" by (cases c)
  with assms have xy: "x < size_e e" "y < size_e e"
    by (simp_all add: set_cells)
  have inner: "for_loop (\<lambda>d u. (case check_direction e (int x) (int y) role d of
                               None \<Rightarrow> None
                             | Some True \<Rightarrow> Some (Return True)
                             | Some False \<Rightarrow> Some (Continue u))) directions u
     = Some (if \<exists>d\<in>set directions. five_from e role (int x) (int y) d then Return True else Continue u)"
    by (rule for_loop_search) (simp add: check_direction_five [OF assms(1)])
  have no: "board e ! x ! y \<noteq> role \<Longrightarrow> \<not> five_from e role (int x) (int y) d" for d
    by (cases d) (auto simp: five_from_def holds_def intro!: exI [of _ 0])
  show ?thesis
    using wf_cell [OF assms(1) xy] inner no
    by (auto simp: win_at_def c)
qed

lemma is_winning_move_cells:
  assumes "well_formed e"
  shows "is_winning_move e role =
     Some (\<exists>(x, y)\<in>set (cells (size_e e)). \<exists>d\<in>set directions. five_from e role (int x) (int y) d)"
proof -
  have "for_loop (win_at e role) (cells (size_e e)) () =
     Some (if \<exists>c\<in>set (cells (size_e e)).
                (\<lambda>(x, y). \<exists>d\<in>set directions. five_from e role (int x) (int y) d) c
           then Return True else Continue ())"
    by (rule for_loop_search) (rule win_at_search [OF assms])
  then show ?thesis
    by (simp add: is_winning_move_def)
qed

lemma five_in_a_row_cells:
  "five_in_a_row e role =
     (\<exists>(x, y)\<in>set (cells (size_e e)). \<exists>d\<in>set directions. five_from e role (int x) (int y) d)"
  (is "?L = ?R")
proof
  assume ?L
  then obtain x y d where d: "d \<in> {(1, 0), (0, 1), (1, 1), (1, - 1)}" and f: "five_from e role x y d"
    by (auto simp: five_in_a_row_def)
  obtain dx dy where dd: "d = (dx, dy)" by (cases d)
  from f dd have "holds e role x y"
    by (auto simp: five_from_def dest: spec [of _ 0])
  then have "(nat x, nat y) \<in> set (cells (size_e e))" and "int (nat x) = x" "int (nat y) = y"
    by (auto simp: holds_def set_cells)
  with d f show ?R
    by (auto simp: directions_def intro!: bexI [of _ "(nat x, nat y)"])
next
  assume ?R
  then show ?L
    by (auto simp: five_in_a_row_def directions_def)
qed

text \<open>
  C7: on a well-formed engine \<open>is_winning_move\<close> returns true when some five
  consecutive cells of a row, a column or a diagonal hold the role, and false when there
  is no such unbroken five (as when four stones and a fifth are separated by a gap).
\<close>

theorem is_winning_move_five_in_a_row:
  "well_formed e \<Longrightarrow> is_winning_move e role = Some (five_in_a_row e role)"
  by (simp add: is_winning_move_cells five_in_a_row_cells)


theorem is_winning_move_five_in_a_row_witness:
  "well_formed (init_engine [[1, 0, 0, 0, 0], [0, 1, 0, 0, 0], [0, 0, 1, 0, 0], [0, 0, 0, 1, 0], [0, 0, 0, 0, 1]] 3)
   \<and> is_winning_move (init_engine [[1, 0, 0, 0, 0], [0, 1, 0, 0, 0], [0, 0, 1, 0, 0], [0, 0, 0, 1, 0], [0, 0, 0, 0, 1]] 3) 1
       = Some True"
proof -
  let ?e = "init_engine [[1, 0, 0, 0, 0], [0, 1, 0, 0, 0], [0, 0, 1, 0, 0], [0, 0, 0, 1, 0], [0, 0, 0, 0, 1]] 3"
  have wf: "well_formed ?e"
    by (simp add: well_formed_def init_engine_def)
  have "i < 5 \<Longrightarrow> holds ?e 1 (int i) (int i)" for i
  proof -
    assume "i < 5"
    then have "i = 0 \<or> i = 1 \<or> i = 2 \<or> i = 3 \<or> i = 4" by auto
    then show ?thesis
      by (auto simp: holds_def init_engine_def)
  qed
  then have "five_from ?e 1 0 0 (1, 1)"
    by (simp add: five_from_def)
  then have "five_in_a_row ?e 1"
    unfolding five_in_a_row_def by blast
  with is_winning_move_five_in_a_row [OF wf, of 1] wf show ?thesis
    by simp
qed

text \<open>Four stones, a gap and a fifth stone in one row are no win.\<close>

lemma is_winning_move_gap:
  "is_winning_move (init_engine [[1, 1, 1, 1, 0, 1], [0, 0, 0, 0, 0, 0], [0, 0, 0, 0, 0, 0],
      [0, 0, 0, 0, 0, 0], [0, 0, 0, 0, 0, 0], [0, 0, 0, 0, 0, 0]] 3) 1 = Some False"
  by code_simp

subsection \<open>Evaluator\<close>

lemma for_loop_accum:
  assumes "\<And>x s. x \<in> set xs \<Longrightarrow> I s \<Longrightarrow>
             (if P x then body x s = Some (Return r)
              else (\<exists>s'. body x s = Some (Continue s') \<and> I s' \<and> view s' = f x (view s)))"
    and "I s"
  shows "if \<exists>x\<in>set xs. P x then for_loop body xs s = Some (Return r)
         else (\<exists>s'. for_loop body xs s = Some (Continue s') \<and> I s' \<and> view s' = fold f xs (view s))"
  using assms
proof (induction xs arbitrary: s)
  case Nil
  then show ?case by simp
next
  case (Cons x xs)
  show ?case
  proof (cases "P x")
    case True
    with Cons.prems(1) [of x s] Cons.prems(2) show ?thesis by simp
  next
    case False
    with Cons.prems(1) [of x s] Cons.prems(2) obtain s' where
      s': "body x s = Some (Continue s')" "I s'" "view s' = f x (view s)"
      by auto
    have "if \<exists>x\<in>set xs. P x then for_loop body xs s' = Some (Return r)
         else (\<exists>s''. for_loop body xs s' = Some (Continue s'') \<and> I s'' \<and> view s'' = fold f xs (view s'))"
      by (rule Cons.IH) (use Cons.prems(1) s'(2) in auto)
    with False s' show ?thesis by auto
  qed
qed

lemma count_in_line_loop_run:
  "well_formed e \<Longrightarrow>
     count_in_line_loop e k x y dx dy role c = Some (c + run_length e role k x y dx dy)"
proof (induction k arbitrary: x y c)
  case 0
  then show ?case by simp
next
  case (Suc k)
  show ?case
  proof (cases "holds e role x y")
    case True
    with Suc.prems have "count_in_line_loop e (Suc k) x y dx dy role c =
        count_in_line_loop e k (x + dx) (y + dy) dx dy role (c + 1)"
      by (simp add: holds_def wf_cell_int)
    with True Suc.IH [OF Suc.prems] show ?thesis by simp
  next
    case False
    with Suc.prems show ?thesis
      by (auto simp: holds_def wf_cell_int)
  qed
qed

lemma count_in_line_run:
  "well_formed e \<Longrightarrow>
     count_in_line e (int x) (int y) dx dy role = Some (run_from e role (x, y) (dx, dy))"
  by (simp add: count_in_line_def count_in_line_loop_run run_from_def)

lemma run_length_le: "run_length e role k x y dx dy \<le> k"
  by (induction k arbitrary: x y) auto

definition cache_ok :: "engine \<Rightarrow> int \<Rightarrow> int \<times> line_cache \<Rightarrow> bool" where
  "cache_ok e role = (\<lambda>(score, cached).
     \<forall>x y dx dy len. cached (x, y, dx, dy) = Some len \<longrightarrow> len = run_from e role (x, y) (dx, dy))"

lemma cache_ok_update:
  "cache_ok e role (score, cached) \<Longrightarrow>
     cache_ok e role (score', cached((x, y, dx, dy) \<mapsto> run_from e role (x, y) (dx, dy)))"
  by (simp add: cache_ok_def)

lemma cache_ok_score: "cache_ok e role (score, cached) \<Longrightarrow> cache_ok e role (score', cached)"
  by (simp add: cache_ok_def)

lemma line_points_step:
  assumes "well_formed e" "cache_ok e role s"
  shows "if run_from e role (x, y) d = 5 then line_points e role x y d s = Some (Return 10000)
         else (\<exists>s'. line_points e role x y d s = Some (Continue s') \<and> cache_ok e role s'
                  \<and> fst s' = fst s + points (run_from e role (x, y) d))"
proof -
  obtain dx dy where d: "d = (dx, dy)" by (cases d)
  obtain score cached where s: "s = (score, cached)" by (cases s)
  let ?len = "run_from e role (x, y) (dx, dy)"
  from assms(2) have ok: "cache_ok e role (score, cached)"
    by (simp add: s)
  have "\<exists>cached'. cache_ok e role (score, cached') \<and>
      line_points e role x y d s =
        Some (if ?len = 5 then Return 10000
              else if ?len = 4 then Continue (score + 100, cached')
              else if ?len = 3 then Continue (score + 10, cached')
              else if ?len = 2 then Continue (score + 1, cached')
              else Continue (score, cached'))"
  proof (cases "cached (x, y, dx, dy)")
    case None
    then have "line_points e role x y d s =
        Some (if ?len = 5 then Return 10000
              else if ?len = 4 then Continue (score + 100, cached((x, y, dx, dy) \<mapsto> ?len))
              else if ?len = 3 then Continue (score + 10, cached((x, y, dx, dy) \<mapsto> ?len))
              else if ?len = 2 then Continue (score + 1, cached((x, y, dx, dy) \<mapsto> ?len))
              else Continue (score, cached((x, y, dx, dy) \<mapsto> ?len)))"
      by (simp add: line_points_def d s count_in_line_run [OF assms(1)])
    with cache_ok_update [OF ok] show ?thesis by blast
  next
    case (Some len)
    with ok have "len = ?len"
      by (simp add: cache_ok_def)
    with Some have "line_points e role x y d s =
        Some (if ?len = 5 then Return 10000
              else if ?len = 4 then Continue (score + 100, cached)
              else if ?len = 3 then Continue (score + 10, cached)
              else if ?len = 2 then Continue (score + 1, cached)
              else Continue (score, cached))"
      by (simp add: line_points_def d s)
    with ok show ?thesis by blast
  qed
  then obtain cached' where ok': "cache_ok e role (score, cached')"
    and lp: "line_points e role x y d s =
        Some (if ?len = 5 then Return 10000
              else if ?len = 4 then Continue (score + 100, cached')
              else if ?len = 3 then Continue (score + 10, cached')
              else if ?len = 2 then Continue (score + 1, cached')
              else Continue (score, cached'))"
    by blast
  show ?thesis
    using lp cache_ok_score [OF ok'] unfolding d s by (auto simp: points_def)
qed

lemma run_from_not_role:
  "board e ! x ! y \<noteq> role \<Longrightarrow> run_from e role (x, y) d = 0"
  by (cases d) (simp add: run_from_def holds_def eval_nat_numeral)

lemma lines_at_step:
  assumes "well_formed e" "c \<in> set (cells (size_e e))" "cache_ok e role s"
  shows "if \<exists>d\<in>set directions. run_from e role c d = 5 then lines_at e role c s = Some (Return 10000)
         else (\<exists>s'. lines_at e role c s = Some (Continue s') \<and> cache_ok e role s'
                  \<and> fst s' = fold (\<lambda>d a. a + points (run_from e role c d)) directions (fst s))"
proof -
  obtain x y where c: "c = (x, y)" by (cases c)
  with assms have xy: "x < size_e e" "y < size_e e"
    by (simp_all add: set_cells)
  show ?thesis
  proof (cases "board e ! x ! y = role")
    case True
    have "if \<exists>d\<in>set directions. run_from e role (x, y) d = 5
          then for_loop (line_points e role x y) directions s = Some (Return 10000)
          else (\<exists>s'. for_loop (line_points e role x y) directions s = Some (Continue s')
                  \<and> cache_ok e role s'
                  \<and> fst s' = fold (\<lambda>d a. a + points (run_from e role (x, y) d)) directions (fst s))"
    proof (rule for_loop_accum [where I = "cache_ok e role" and view = fst
          and P = "\<lambda>d. run_from e role (x, y) d = 5"
          and f = "\<lambda>d a. a + points (run_from e role (x, y) d)"])
      fix d s' assume "cache_ok e role s'"
      then show "if run_from e role (x, y) d = 5 then line_points e role x y d s' = Some (Return 10000)
         else (\<exists>s''. line_points e role x y d s' = Some (Continue s'') \<and> cache_ok e role s''
                  \<and> fst s'' = fst s' + points (run_from e role (x, y) d))"
        by (rule line_points_step [OF assms(1)])
    qed (rule assms(3))
    with True wf_cell [OF assms(1) xy] show ?thesis
      by (auto simp: lines_at_def c)
  next
    case False
    then have "run_from e role (x, y) d = 0" for d
      by (rule run_from_not_role)
    then have "fold (\<lambda>d a. a + points (run_from e role (x, y) d)) directions a = a" for a
      by (simp add: directions_def points_def)
    with False wf_cell [OF assms(1) xy] assms(3) \<open>\<And>d. run_from e role (x, y) d = 0\<close> show ?thesis
      by (simp add: lines_at_def c)
  qed
qed

lemma fold_add_sum_list: "fold (\<lambda>x a. a + g x) xs (a :: int) = a + sum_list (map g xs)"
  by (induction xs arbitrary: a) simp_all

lemma fold_fold_sum_list:
  "fold (\<lambda>c a. fold (\<lambda>d a. a + g c d) ds a) cs (a :: int)
     = a + (\<Sum>c\<leftarrow>cs. \<Sum>d\<leftarrow>ds. g c d)"
  by (induction cs arbitrary: a) (simp_all add: fold_add_sum_list)

lemma evaluate_lines_cells:
  assumes "well_formed e"
  shows "evaluate_lines e role =
     Some (if \<exists>c\<in>set (cells (size_e e)). \<exists>d\<in>set directions. run_from e role c d = 5 then 10000
           else (\<Sum>c\<leftarrow>cells (size_e e). \<Sum>d\<leftarrow>directions. points (run_from e role c d)))"
proof -
  have "if \<exists>c\<in>set (cells (size_e e)). \<exists>d\<in>set directions. run_from e role c d = 5
        then for_loop (lines_at e role) (cells (size_e e)) (0, Map.empty) = Some (Return 10000)
        else (\<exists>s'. for_loop (lines_at e role) (cells (size_e e)) (0, Map.empty) = Some (Continue s')
                \<and> cache_ok e role s'
                \<and> fst s' = fold (\<lambda>c a. fold (\<lambda>d a. a + points (run_from e role c d)) directions a)
                              (cells (size_e e)) (fst (0 :: int, Map.empty :: line_cache)))"
  proof (rule for_loop_accum [where I = "cache_ok e role" and view = fst
        and P = "\<lambda>c. \<exists>d\<in>set directions. run_from e role c d = 5"
        and f = "\<lambda>c a. fold (\<lambda>d a. a + points (run_from e role c d)) directions a"])
    fix c s' assume "c \<in> set (cells (size_e e))" "cache_ok e role s'"
    then show "if \<exists>d\<in>set directions. run_from e role c d = 5
         then lines_at e role c s' = Some (Return 10000)
         else (\<exists>s''. lines_at e role c s' = Some (Continue s'') \<and> cache_ok e role s''
                  \<and> fst s'' = fold (\<lambda>d a. a + points (run_from e role c d)) directions (fst s'))"
      by (rule lines_at_step [OF assms])
  next
    show "cache_ok e role (0, Map.empty)"
      by (simp add: cache_ok_def)
  qed
  then show ?thesis
    by (auto simp: evaluate_lines_def fold_fold_sum_list split: prod.splits)
qed

lemma sum_list_filter_zero:
  "(\<And>x. x \<in> set xs \<Longrightarrow> \<not> P x \<Longrightarrow> g x = (0 :: int))
     \<Longrightarrow> sum_list (map g (filter P xs)) = sum_list (map g xs)"
  by (induction xs) simp_all

lemma evaluate_lines_line_score:
  assumes "well_formed e"
  shows "evaluate_lines e role = Some (line_score e role)"
proof -
  have zero: "\<not> (\<lambda>(x, y). board e ! x ! y = role) c \<Longrightarrow> run_from e role c d = 0" for c d
    by (cases c) (simp add: run_from_not_role)
  have ex: "(\<exists>c\<in>set (cells (size_e e)). \<exists>d\<in>set directions. run_from e role c d = 5)
      = (\<exists>c\<in>set (stones e role). \<exists>d\<in>set directions. run_from e role c d = 5)"
    using zero by (fastforce simp: stones_def)
  have "(\<Sum>c\<leftarrow>stones e role. \<Sum>d\<leftarrow>directions. points (run_from e role c d))
      = (\<Sum>c\<leftarrow>cells (size_e e). \<Sum>d\<leftarrow>directions. points (run_from e role c d))"
    unfolding stones_def
    by (rule sum_list_filter_zero) (simp add: zero directions_def points_def)
  with ex show ?thesis
    by (simp add: evaluate_lines_cells [OF assms] line_score_def)
qed

lemma holds_stones:
  "holds e role x y = (0 \<le> x \<and> 0 \<le> y \<and> (nat x, nat y) \<in> set (stones e role))"
  by (auto simp: holds_def stones_def set_cells)

lemma evaluate_board_line_score:
  "well_formed e \<Longrightarrow>
     evaluate_board e =
       Some (Fin (fl64 (fl64 (of_int (line_score e (ai_role e)) * float_1_2)
                        - of_int (line_score e (opponent_role e)))))"
  by (simp add: evaluate_board_def evaluate_lines_line_score)

lemma three_in_a_row_11:
  assumes "set (stones e role) = {(r, c), (r, c + 1), (r, c + 2)}"
  shows "line_score e role = 11"
proof -
  have h: "holds e role x y = (0 \<le> x \<and> 0 \<le> y \<and> (nat x, nat y) \<in> {(r, c), (r, c + 1), (r, c + 2)})" for x y
    by (simp add: holds_stones assms)
  have d: "distinct (stones e role)"
    by (simp add: stones_def distinct_cells)
  have runs: "run_from e role (r, c) (1, 0) = 1" "run_from e role (r, c) (0, 1) = 3"
    "run_from e role (r, c) (1, 1) = 1" "run_from e role (r, c) (1, - 1) = 1"
    "run_from e role (r, Suc c) (1, 0) = 1" "run_from e role (r, Suc c) (0, 1) = 2"
    "run_from e role (r, Suc c) (1, 1) = 1" "run_from e role (r, Suc c) (1, - 1) = 1"
    "run_from e role (r, Suc (Suc c)) (1, 0) = 1" "run_from e role (r, Suc (Suc c)) (0, 1) = 1"
    "run_from e role (r, Suc (Suc c)) (1, 1) = 1" "run_from e role (r, Suc (Suc c)) (1, - 1) = 1"
    by (simp_all add: run_from_def eval_nat_numeral h nat_add_distrib)
  have no5: "\<not> (\<exists>c\<in>set (stones e role). \<exists>d\<in>set directions. run_from e role c d = 5)"
    by (simp add: assms directions_def runs)
  have "(\<Sum>c\<leftarrow>stones e role. \<Sum>d\<leftarrow>directions. points (run_from e role c d))
      = (\<Sum>c\<in>set (stones e role). \<Sum>d\<leftarrow>directions. points (run_from e role c d))"
    using d by (rule sum_list_distinct_conv_sum_set)
  also have "\<dots> = 11"
    by (simp add: assms directions_def runs points_def)
  finally show ?thesis
    using no5 by (simp add: line_score_def)
qed

lemma single_stone_0:
  assumes "set (stones e role) = {(r, c)}"
  shows "line_score e role = 0"
proof -
  have h: "holds e role x y = (0 \<le> x \<and> 0 \<le> y \<and> (nat x, nat y) \<in> {(r, c)})" for x y
    by (simp add: holds_stones assms)
  have d: "distinct (stones e role)"
    by (simp add: stones_def distinct_cells)
  have runs: "run_from e role (r, c) (1, 0) = 1" "run_from e role (r, c) (0, 1) = 1"
    "run_from e role (r, c) (1, 1) = 1" "run_from e role (r, c) (1, - 1) = 1"
    by (simp_all add: run_from_def eval_nat_numeral h nat_add_distrib)
  have no5: "\<not> (\<exists>c\<in>set (stones e role). \<exists>d\<in>set directions. run_from e role c d = 5)"
    by (simp add: assms directions_def runs)
  have "(\<Sum>c\<leftarrow>stones e role. \<Sum>d\<leftarrow>directions. points (run_from e role c d))
      = (\<Sum>c\<in>set (stones e role). \<Sum>d\<leftarrow>directions. points (run_from e role c d))"
    using d by (rule sum_list_distinct_conv_sum_set)
  also have "\<dots> = 0"
    by (simp add: assms directions_def runs points_def)
  finally show ?thesis
    using no5 by (simp add: line_score_def)
qed


text \<open>
  C9: on a well-formed engine \<open>evaluate_lines\<close> returns the line score: 10000 as soon
  as a stone of the role starts a run of five, and else the sum, over the stones of the
  role and the four directions, of the points 100, 10, 1, 0 for runs of 4, 3, 2 and less.
  \<open>evaluate_board\<close> returns the engine's line score times 1.2 minus the opponent's, in
  the double arithmetic of Python. Three stones in a row of a role that has no other
  stone score 11, a single stone scores 0.
\<close>

theorem evaluator_line_scores:
  "well_formed e \<Longrightarrow>
     evaluate_lines e role = Some (line_score e role)
     \<and> evaluate_board e =
         Some (Fin (fl64 (fl64 (of_int (line_score e (ai_role e)) * float_1_2)
                          - of_int (line_score e (opponent_role e)))))
     \<and> (set (stones e role) = {(r, c), (r, c + 1), (r, c + 2)} \<longrightarrow> evaluate_lines e role = Some 11)
     \<and> (set (stones e role') = {(r', c')} \<longrightarrow> evaluate_lines e role' = Some 0)"
  by (simp add: evaluate_lines_line_score evaluate_board_line_score three_in_a_row_11
      single_stone_0)

lemma fl64_13_2: "fl64 (fl64 (11 * float_1_2) - 0) = 3715469692580659 / 281474976710656"
  by code_simp

theorem evaluator_line_scores_witness:
  "well_formed (init_engine three_board 3)
   \<and> set (stones (init_engine three_board 3) 1) = {(1, 1), (1, 1 + 1), (1, 1 + 2)}
   \<and> set (stones (init_engine three_board 3) 2) = {(3, 3)}
   \<and> evaluate_lines (init_engine three_board 3) 1 = Some 11
   \<and> evaluate_lines (init_engine three_board 3) 2 = Some 0
   \<and> evaluate_board (init_engine three_board 3) = Some (Fin (3715469692580659 / 281474976710656))"
proof -
  let ?e = "init_engine three_board 3"
  have wf: "well_formed ?e"
    by (simp add: well_formed_def init_engine_def three_board_def)
  have s1: "set (stones ?e 1) = {(1, 1), (1, 1 + 1), (1, 1 + 2)}"
    by code_simp
  have s2: "set (stones ?e 2) = {(3, 3)}"
    by code_simp
  have roles: "ai_role ?e = 1" "opponent_role ?e = 2"
    by (simp_all add: init_engine_def)
  note t = evaluator_line_scores [OF wf, of 1 1 1 2 3 3]
  from t s1 have l1: "evaluate_lines ?e 1 = Some 11" by blast
  from t s2 have l2: "evaluate_lines ?e 2 = Some 0" by blast
  from t have "evaluate_lines ?e 1 = Some (line_score ?e 1)" by blast
  with l1 have ls1: "line_score ?e 1 = 11" by simp
  from evaluator_line_scores [OF wf, of 2 0 0 2 3 3] have "evaluate_lines ?e 2 = Some (line_score ?e 2)"
    by blast
  with l2 have ls2: "line_score ?e 2 = 0" by simp
  from t have "evaluate_board ?e =
         Some (Fin (fl64 (fl64 (of_int (line_score ?e (ai_role ?e)) * float_1_2)
                          - of_int (line_score ?e (opponent_role ?e)))))"
    by blast
  then have b: "evaluate_board ?e = Some (Fin (3715469692580659 / 281474976710656))"
    using fl64_13_2 by (simp add: roles ls1 ls2)
  from wf s1 s2 l1 l2 b show ?thesis by blast
qed

subsection \<open>MoveGenerator\<close>

lemma fold_append_filter:
  "fold (\<lambda>x acc. if P x then acc @ [x] else acc) xs acc = acc @ filter P xs"
  by (induction xs arbitrary: acc) simp_all

lemma fold_append_concat:
  "fold (\<lambda>x acc. acc @ g x) xs acc = acc @ concat (map g xs)"
  by (induction xs arbitrary: acc) simp_all

lemma taken_moves_occupied:
  assumes "well_formed e"
  shows "taken_moves e = Some (occupied e)"
proof -
  let ?P = "\<lambda>(x, y). board e ! x ! y \<noteq> 0"
  have "(for_loop (\<lambda>(x, y) acc.
        (case cell (board e) x y of
           None \<Rightarrow> None
         | Some c \<Rightarrow> Some (Continue (if c \<noteq> 0 then acc @ [(x, y)] else acc))))
        (cells (size_e e)) [] :: (move list, move list) flow option)
      = Some (Continue (fold (\<lambda>c acc. if ?P c then acc @ [c] else acc) (cells (size_e e)) []))"
    by (rule for_loop_fold) (auto simp: wf_cell [OF assms] set_cells)
  then show ?thesis
    by (simp add: taken_moves_def loop_result_def fold_append_filter occupied_def)
qed

lemma set_occupied: "set (occupied e) = {(x, y). x < size_e e \<and> y < size_e e \<and> board e ! x ! y \<noteq> 0}"
  by (auto simp: occupied_def set_cells)

lemma add_neighbour_neighbour:
  assumes "well_formed e"
  shows "add_neighbour e p acc = Some (Continue (acc @ neighbour e p))"
proof -
  obtain x y dx dy where p: "p = ((x, y), (dx, dy))"
    by (metis surj_pair)
  show ?thesis
  proof (cases "0 \<le> int x + dx \<and> int x + dx < int (size_e e) \<and> 0 \<le> int y + dy \<and> int y + dy < int (size_e e)")
    case True
    with wf_cell_int [OF assms, of "int x + dx" "int y + dy"] show ?thesis
      by (simp add: add_neighbour_def neighbour_def p holds_def Let_def)
  next
    case False
    then show ?thesis
      by (auto simp: add_neighbour_def neighbour_def p holds_def Let_def)
  qed
qed

lemma available_moves_added:
  assumes "well_formed e"
  shows "available_moves sl e = Some (sl (added e))"
proof -
  have "(for_loop (add_neighbour e) (List.product (occupied e) offsets) []
        :: (move list, move list) flow option)
      = Some (Continue (fold (\<lambda>p acc. acc @ neighbour e p) (List.product (occupied e) offsets) []))"
    by (rule for_loop_fold) (rule add_neighbour_neighbour [OF assms])
  then show ?thesis
    by (simp add: available_moves_def taken_moves_occupied [OF assms] loop_result_def
        fold_append_concat added_def)
qed

lemma set_offsets: "set offsets = {(dx, dy). - 2 \<le> dx \<and> dx \<le> 2 \<and> - 2 \<le> dy \<and> dy \<le> 2}"
  by (auto simp: offsets_def area_range_def)

lemma set_added: "set (added e) = candidates e"
proof (rule set_eqI)
  fix m :: move
  obtain nx ny where m: "m = (nx, ny)" by (cases m)
  show "m \<in> set (added e) \<longleftrightarrow> m \<in> candidates e"
  proof
    assume "m \<in> set (added e)"
    then obtain x y dx dy where o: "(x, y) \<in> set (occupied e)" and off: "(dx, dy) \<in> set offsets"
      and n: "(nx, ny) \<in> set (neighbour e ((x, y), (dx, dy)))"
      by (auto simp: added_def m)
    from n have h: "holds e 0 (int x + dx) (int y + dy)" and nx: "nx = nat (int x + dx)"
      and ny: "ny = nat (int y + dy)"
      by (auto simp: neighbour_def split: if_splits)
    from h nx ny have "int nx = int x + dx" "int ny = int y + dy"
      by (auto simp: holds_def)
    with off have "\<bar>int nx - int x\<bar> \<le> 2 \<and> \<bar>int ny - int y\<bar> \<le> 2"
      by (auto simp: set_offsets)
    with o have "\<exists>(x, y)\<in>set (occupied e). \<bar>int nx - int x\<bar> \<le> 2 \<and> \<bar>int ny - int y\<bar> \<le> 2"
      by (intro bexI [of _ "(x, y)"]) simp_all
    moreover from h nx ny have "nx < size_e e \<and> ny < size_e e \<and> board e ! nx ! ny = 0"
      by (auto simp: holds_def)
    ultimately show "m \<in> candidates e"
      by (simp add: candidates_def m)
  next
    assume "m \<in> candidates e"
    then obtain x y where o: "(x, y) \<in> set (occupied e)" and near: "\<bar>int nx - int x\<bar> \<le> 2" "\<bar>int ny - int y\<bar> \<le> 2"
      and e: "nx < size_e e" "ny < size_e e" "board e ! nx ! ny = 0"
      by (auto simp: candidates_def m)
    let ?dx = "int nx - int x" and ?dy = "int ny - int y"
    from near have off: "(?dx, ?dy) \<in> set offsets"
      by (auto simp: set_offsets)
    from e have "holds e 0 (int x + ?dx) (int y + ?dy)"
      by (simp add: holds_def)
    then have "(nx, ny) \<in> set (neighbour e ((x, y), (?dx, ?dy)))"
      by (simp add: neighbour_def)
    with o off show "m \<in> set (added e)"
      unfolding added_def m by (auto intro!: bexI [of _ "((x, y), (?dx, ?dy))"])
  qed
qed

lemma candidates_empty_cell:
  "(x, y) \<in> candidates e \<Longrightarrow> x < size_e e \<and> y < size_e e \<and> board e ! x ! y = 0"
  by (simp add: candidates_def)

text \<open>
  C6, as amended: on a well-formed engine \<open>available_moves\<close> returns the empty cells
  within Chebyshev distance 2 of an occupied cell, each once, in the order in which the
  runtime lists the set; the result depends on the board and its size only.
\<close>

theorem available_moves_candidates:
  "well_formed e \<Longrightarrow> set_semantics sl \<Longrightarrow>
     (\<exists>ms. available_moves sl e = Some ms \<and> set ms = candidates e \<and> distinct ms)
     \<and> (\<forall>e' :: engine. board e' = board e \<and> size_e e' = size_e e
            \<longrightarrow> available_moves sl e' = available_moves sl e)"
proof (intro conjI allI impI)
  assume "well_formed e" "set_semantics sl"
  then show "\<exists>ms. available_moves sl e = Some ms \<and> set ms = candidates e \<and> distinct ms"
    by (simp add: available_moves_added set_semantics_def set_added)
next
  fix e' :: engine assume "board e' = board e \<and> size_e e' = size_e e"
  then have eq: "board e' = board e" "size_e e' = size_e e"
    by simp_all
  have an: "add_neighbour e' = add_neighbour e"
    unfolding add_neighbour_def eq ..
  show "available_moves sl e' = available_moves sl e"
    unfolding available_moves_def taken_moves_def eq an ..
qed

lemma set_semantics_remdups: "set_semantics remdups"
  by (simp add: set_semantics_def)

lemma set_semantics_listing_cpython: "set_semantics listing_cpython"
  by (simp add: set_semantics_def listing_cpython_def cpython_order_def)

lemma well_formed_centre: "well_formed (init_engine centre_board 3)"
  by (simp add: well_formed_def init_engine_def centre_board_def)

theorem available_moves_candidates_witness:
  "well_formed (init_engine centre_board 3) \<and> set_semantics remdups
   \<and> (\<exists>ms. available_moves remdups (init_engine centre_board 3) = Some ms
         \<and> set ms = candidates (init_engine centre_board 3) \<and> distinct ms)
   \<and> available_moves remdups (init_engine centre_board 5)
       = available_moves remdups (init_engine centre_board 3)"
proof -
  have "board (init_engine centre_board 5) = board (init_engine centre_board 3)
      \<and> size_e (init_engine centre_board 5) = size_e (init_engine centre_board 3)"
    by (simp add: init_engine_def)
  with available_moves_candidates [OF well_formed_centre set_semantics_remdups]
    well_formed_centre set_semantics_remdups
  show ?thesis
    by blast
qed

text \<open>
  C6, as stated, fails: the source does not sort, and with the listing of CPython 3.11
  the candidates of the 3 by 3 board come in an order that is not ascending.
\<close>

theorem available_moves_not_ascending:
  "set_semantics listing_cpython \<and> well_formed (init_engine centre_board 3)
   \<and> available_moves listing_cpython (init_engine centre_board 3)
       = Some [(0, 1), (1, 2), (2, 1), (0, 0), (2, 0), (0, 2), (2, 2), (1, 0)]
   \<and> \<not> ascending [(0, 1), (1, 2), (2, 1), (0, 0), (2, 0), (0, 2), (2, 2), (1, 0)]"
proof -
  have "available_moves listing_cpython (init_engine centre_board 3)
       = Some [(0, 1), (1, 2), (2, 1), (0, 0), (2, 0), (0, 2), (2, 2), (1, 0)]"
    by code_simp
  moreover have "\<not> ascending [(0, 1), (1, 2), (2, 1), (0, 0), (2, 0), (0, 2), (2, 2), (1, 0)]"
    by (simp add: ascending_def row_col_less_def)
  ultimately show ?thesis
    using set_semantics_listing_cpython well_formed_centre by simp
qed

subsection \<open>The search keeps the board and lets the table grow\<close>

lemma frame_refl: "frame e e"
  by (simp add: frame_def)

lemma frame_trans: "frame e e' \<Longrightarrow> frame e' e'' \<Longrightarrow> frame e e''"
  by (simp add: frame_def)

lemma frame_well_formed: "frame e e' \<Longrightarrow> well_formed e \<Longrightarrow> well_formed e'"
  by (simp add: frame_def well_formed_def)

lemma frame_candidates: "frame e e' \<Longrightarrow> candidates e' = candidates e"
  by (simp add: frame_def candidates_def occupied_def)

lemma frame_store: "frame e (store e h s d)"
  by (simp add: frame_def store_def)

lemma table_grows_refl: "table_grows t t"
  by (simp add: table_grows_def)

lemma table_grows_trans:
  assumes "table_grows t t'" "table_grows t' t''"
  shows "table_grows t t''"
  unfolding table_grows_def
proof (intro allI impI)
  fix k entry assume "t k = Some entry"
  with assms(1) obtain entry' where 1: "t' k = Some entry'" "tt_depth entry \<le> tt_depth entry'"
    "tt_depth entry' = tt_depth entry \<longrightarrow> entry' = entry"
    unfolding table_grows_def by blast
  with assms(2) obtain entry'' where 2: "t'' k = Some entry''" "tt_depth entry' \<le> tt_depth entry''"
    "tt_depth entry'' = tt_depth entry' \<longrightarrow> entry'' = entry'"
    unfolding table_grows_def by blast
  from 1 2 show "\<exists>entry'. t'' k = Some entry' \<and> tt_depth entry \<le> tt_depth entry'
           \<and> (tt_depth entry' = tt_depth entry \<longrightarrow> entry' = entry)"
    by (intro exI [of _ entry'']) auto
qed

lemma table_grows_store:
  "cache_lookup e h d = None \<Longrightarrow>
     table_grows (transposition_table e) (transposition_table (store e h s d))"
  by (auto simp: table_grows_def store_def cache_lookup_def split: option.splits if_splits)

lemma well_formed_place:
  assumes "well_formed e" "x < size_e e" "y < size_e e" "v = 0 \<or> v = 1 \<or> v = 2"
  shows "set_cell (board e) x y v = Some (place (board e) x y v)"
    and "well_formed (e\<lparr>board := place (board e) x y v\<rparr>)"
proof -
  from assms have len: "x < length (board e)" "y < length (board e ! x)"
    by (simp_all add: well_formed_def)
  then show "set_cell (board e) x y v = Some (place (board e) x y v)"
    by (simp add: set_cell_def place_def)
  have "length row = size_e e \<and> (\<forall>c\<in>set row. c = 0 \<or> c = 1 \<or> c = 2)"
    if "row \<in> set (place (board e) x y v)" for row
  proof -
    from that have "row = (board e ! x)[y := v] \<or> row \<in> set (board e)"
      unfolding place_def by (metis insertE set_update_subset_insert subsetD)
    then show ?thesis
    proof
      assume r: "row = (board e ! x)[y := v]"
      have "board e ! x \<in> set (board e)"
        using len by simp
      with assms(1) have "length (board e ! x) = size_e e" "\<forall>c\<in>set (board e ! x). c = 0 \<or> c = 1 \<or> c = 2"
        by (simp_all add: well_formed_def)
      moreover have "set row \<subseteq> insert v (set (board e ! x))"
        unfolding r by (rule set_update_subset_insert)
      ultimately show ?thesis
        using assms(4) r by auto
    next
      assume "row \<in> set (board e)"
      with assms(1) show ?thesis
        by (simp add: well_formed_def)
    qed
  qed
  with assms(1) show "well_formed (e\<lparr>board := place (board e) x y v\<rparr>)"
    by (simp add: well_formed_def place_def)
qed

lemma place_undo:
  assumes "x < length b" "b ! x ! y = 0"
  shows "place (place b x y v) x y 0 = b"
proof -
  have "(b ! x)[y := 0] = b ! x"
    using list_update_id [of "b ! x" y] assms(2) by simp
  with assms(1) show ?thesis
    by (simp add: place_def list_update_same_conv)
qed

lemma set_cell_undo:
  assumes "well_formed e" "x < size_e e" "y < size_e e" "board e ! x ! y = 0"
  shows "set_cell (place (board e) x y v) x y 0 = Some (board e)"
proof -
  from assms have "x < length (board e)" "y < length (board e ! x)"
    by (simp_all add: well_formed_def)
  then have "set_cell (place (board e) x y v) x y 0 = Some (place (place (board e) x y v) x y 0)"
    by (simp add: set_cell_def place_def)
  with place_undo [OF \<open>x < length (board e)\<close> assms(4)] show ?thesis
    by simp
qed

lemma improve_best:
  "improve mx ev m (alpha, beta, best) = (alpha', beta', best') \<Longrightarrow> best' = best \<or> best' = Some m"
  by (auto simp: improve_def split: if_splits)

lemma minimax_moves_ok:
  assumes sl: "set_semantics sl"
    and node: "\<And>e alpha beta mx. well_formed e \<Longrightarrow>
        \<exists>s mv e'. minimax Z sl e d alpha beta mx = Some ((s, mv), e') \<and> call_ok e mv e'"
  shows "well_formed e \<Longrightarrow> set moves \<subseteq> candidates e \<Longrightarrow> (\<forall>m. best = Some m \<longrightarrow> m \<in> candidates e) \<Longrightarrow>
     \<exists>a b bm e'. minimax_moves Z sl e d alpha beta mx best moves = Some ((a, b, bm), e')
        \<and> call_ok e bm e'"
proof (induction moves arbitrary: e alpha beta best)
  case Nil
  then show ?case
    by (simp add: call_ok_def frame_refl table_grows_refl)
next
  case (Cons m moves)
  obtain x y where m: "m = (x, y)" by (cases m)
  let ?v = "if mx then ai_role e else opponent_role e"
  from Cons.prems(2) have mc: "(x, y) \<in> candidates e"
    by (simp add: m)
  then have xy: "x < size_e e" "y < size_e e" "board e ! x ! y = 0"
    by (simp_all add: candidates_def)
  from Cons.prems(1) have v: "?v = 0 \<or> ?v = 1 \<or> ?v = 2"
    by (simp add: well_formed_def)
  let ?e1 = "e\<lparr>board := place (board e) x y ?v\<rparr>"
  note pl = well_formed_place [OF Cons.prems(1) xy(1,2) v]
  from node [OF pl(2)] obtain ev mv e2 where
    call: "minimax Z sl ?e1 d alpha beta (\<not> mx) = Some ((ev, mv), e2)" and ok2: "call_ok ?e1 mv e2"
    by blast
  from ok2 have b2: "board e2 = place (board e) x y ?v"
    and f2: "size_e e2 = size_e e" "max_depth e2 = max_depth e" "ai_role e2 = ai_role e"
      "opponent_role e2 = opponent_role e"
    and g2: "table_grows (transposition_table e) (transposition_table e2)"
    by (simp_all add: call_ok_def frame_def)
  have undo: "set_cell (board e2) x y 0 = Some (board e)"
    unfolding b2 by (rule set_cell_undo [OF Cons.prems(1) xy])
  let ?e3 = "e2\<lparr>board := board e\<rparr>"
  have f3: "frame e ?e3"
    by (simp add: frame_def f2)
  have g3: "table_grows (transposition_table e) (transposition_table ?e3)"
    using g2 by simp
  obtain alpha' beta' best' where imp: "improve mx ev (x, y) (alpha, beta, best) = (alpha', beta', best')"
    by (cases "improve mx ev (x, y) (alpha, beta, best)")
  from improve_best [OF imp] Cons.prems(3) mc have best': "\<forall>m. best' = Some m \<longrightarrow> m \<in> candidates e"
    by auto
  have step: "minimax_moves Z sl e d alpha beta mx best (m # moves) =
      (if beta' \<le> alpha' then Some ((alpha', beta', best'), ?e3)
       else minimax_moves Z sl ?e3 d alpha' beta' mx best' moves)"
    by (simp add: m pl(1) call undo imp)
  show ?case
  proof (cases "beta' \<le> alpha'")
    case True
    with step f3 g3 best' show ?thesis
      by (simp add: call_ok_def)
  next
    case False
    have "\<exists>a b bm e'. minimax_moves Z sl ?e3 d alpha' beta' mx best' moves = Some ((a, b, bm), e')
        \<and> call_ok ?e3 bm e'"
    proof (rule Cons.IH)
      show "well_formed ?e3"
        using f3 Cons.prems(1) by (rule frame_well_formed)
      show "set moves \<subseteq> candidates ?e3"
        using Cons.prems(2) by (simp add: frame_candidates [OF f3])
      show "\<forall>m. best' = Some m \<longrightarrow> m \<in> candidates ?e3"
        using best' by (simp add: frame_candidates [OF f3])
    qed
    then obtain a b bm e' where
      rest: "minimax_moves Z sl ?e3 d alpha' beta' mx best' moves = Some ((a, b, bm), e')"
      and ok: "call_ok ?e3 bm e'"
      by blast
    from ok f3 g3 have "call_ok e bm e'"
      unfolding call_ok_def
      by (auto intro: frame_trans table_grows_trans simp: frame_candidates [OF f3])
    with False step rest show ?thesis
      by simp
  qed
qed


lemma is_winning_move_win:
  "well_formed e \<Longrightarrow> is_winning_move e role = Some (five_in_a_row e role)"
  by (simp add: is_winning_move_cells five_in_a_row_cells)

lemma terminal_total:
  "well_formed e \<Longrightarrow> \<exists>t. terminal e d = Some t"
  by (cases "five_in_a_row e (ai_role e)")
    (auto simp: terminal_def is_winning_move_win)

lemma terminal_not_0: "terminal e d = Some False \<Longrightarrow> d \<noteq> 0"
  by (auto simp: terminal_def split: if_splits)

lemma minimax_hit:
  "zobrist_hash Z e = Some h \<Longrightarrow> cache_lookup e h d = Some s \<Longrightarrow>
     minimax Z sl e d alpha beta mx = Some ((s, None), e)"
  by (simp add: minimax.simps)

lemma minimax_terminal:
  "zobrist_hash Z e = Some h \<Longrightarrow> cache_lookup e h d = None \<Longrightarrow> terminal e d = Some True \<Longrightarrow>
     evaluate_board e = Some s \<Longrightarrow>
     minimax Z sl e d alpha beta mx = Some ((s, None), store e h s d)"
  by (simp add: minimax.simps)

lemma minimax_search:
  "zobrist_hash Z e = Some h \<Longrightarrow> cache_lookup e h d = None \<Longrightarrow> terminal e d = Some False \<Longrightarrow>
     available_moves sl e = Some moves \<Longrightarrow>
     minimax Z sl e d alpha beta mx =
       (case minimax_moves Z sl e (d - 1) alpha beta mx None moves of
          None \<Rightarrow> None
        | Some ((alpha', beta', best_move), e') \<Rightarrow>
            Some ((if mx then alpha' else beta', best_move), e'))"
  by (simp add: minimax.simps)

lemma minimax_ok:
  assumes sl: "set_semantics sl"
  shows "well_formed e \<Longrightarrow>
     \<exists>s mv e'. minimax Z sl e d alpha beta mx = Some ((s, mv), e') \<and> call_ok e mv e'"
proof (induction d arbitrary: e alpha beta mx rule: less_induct)
  case (less d)
  from less.prems obtain h where h: "zobrist_hash Z e = Some h"
    by (simp add: zobrist_hash_occupied)
  show ?case
  proof (cases "cache_lookup e h d")
    case (Some s)
    with h show ?thesis
      by (simp add: minimax_hit call_ok_def frame_refl table_grows_refl)
  next
    case None
    from terminal_total [OF less.prems] obtain t where t: "terminal e d = Some t"
      by blast
    show ?thesis
    proof (cases t)
      case True
      from less.prems obtain s where "evaluate_board e = Some s"
        by (simp add: evaluate_board_line_score)
      with h None t True show ?thesis
        by (simp add: minimax_terminal call_ok_def frame_store table_grows_store)
    next
      case False
      with t have d: "d - 1 < d"
        using terminal_not_0 [of e d] by simp
      have moves: "available_moves sl e = Some (sl (added e))"
        using less.prems by (rule available_moves_added)
      have "\<exists>a b bm e'. minimax_moves Z sl e (d - 1) alpha beta mx None (sl (added e))
            = Some ((a, b, bm), e') \<and> call_ok e bm e'"
      proof (rule minimax_moves_ok [OF sl])
        show "\<exists>s mv e''. minimax Z sl e' (d - 1) alpha' beta' mx' = Some ((s, mv), e'')
            \<and> call_ok e' mv e''" if "well_formed e'" for e' alpha' beta' mx'
          using that by (rule less.IH [OF d])
        show "well_formed e" by (rule less.prems)
        show "set (sl (added e)) \<subseteq> candidates e"
          using sl by (simp add: set_semantics_def set_added)
        show "\<forall>m. None = Some m \<longrightarrow> m \<in> candidates e" by simp
      qed
      then obtain a b bm e' where
        "minimax_moves Z sl e (d - 1) alpha beta mx None (sl (added e)) = Some ((a, b, bm), e')"
        "call_ok e bm e'"
        by blast
      with h None t False moves show ?thesis
        by (simp add: minimax_search)
    qed
  qed
qed


lemma well_formed_corner: "well_formed corner_engine"
  by (simp add: well_formed_def corner_engine_def init_engine_def)

lemma well_formed_cached: "well_formed cached_engine"
  by (simp add: well_formed_def cached_engine_def corner_engine_def init_engine_def)

text \<open>
  C2: a call of \<open>minimax\<close> on a well-formed engine returns, and the board it leaves is
  the board it was given, whether the loop over the candidates ran to its end or
  stopped at \<open>beta \<le> alpha\<close>.
\<close>

theorem minimax_restores_board:
  "well_formed e \<Longrightarrow> set_semantics sl \<Longrightarrow>
     \<exists>r e'. minimax Z sl e d alpha beta mx = Some (r, e') \<and> board e' = board e"
  using minimax_ok [of sl e Z d alpha beta mx]
  by (auto simp: call_ok_def frame_def)

theorem minimax_restores_board_witness:
  "well_formed corner_engine \<and> set_semantics remdups
   \<and> (\<exists>r e'. minimax Z0 remdups corner_engine 2 NegInf PosInf True = Some (r, e')
         \<and> board e' = board corner_engine)"
  using minimax_restores_board [OF well_formed_corner set_semantics_remdups]
    well_formed_corner set_semantics_remdups
  by blast

text \<open>
  C5: when a call of \<open>minimax\<close> on a well-formed engine returns a move, the cell of
  the move is on the board and empty on the board that the call leaves.
\<close>

theorem minimax_move_empty:
  "well_formed e \<Longrightarrow> set_semantics sl \<Longrightarrow>
     \<exists>s mv e'. minimax Z sl e d alpha beta mx = Some ((s, mv), e')
       \<and> (\<forall>x y. mv = Some (x, y) \<longrightarrow> x < size_e e' \<and> y < size_e e' \<and> board e' ! x ! y = 0)"
proof -
  assume "well_formed e" "set_semantics sl"
  then obtain s mv e' where m: "minimax Z sl e d alpha beta mx = Some ((s, mv), e')"
    and ok: "call_ok e mv e'"
    using minimax_ok [of sl e Z d alpha beta mx] by blast
  from ok have "\<forall>x y. mv = Some (x, y) \<longrightarrow> x < size_e e' \<and> y < size_e e' \<and> board e' ! x ! y = 0"
    by (auto simp: call_ok_def frame_def dest: candidates_empty_cell)
  with m show ?thesis by blast
qed

theorem minimax_move_empty_witness:
  "well_formed corner_engine \<and> set_semantics remdups
   \<and> (\<exists>s mv e'. minimax Z0 remdups corner_engine 2 NegInf PosInf True = Some ((s, mv), e')
       \<and> (\<forall>x y. mv = Some (x, y) \<longrightarrow> x < size_e e' \<and> y < size_e e' \<and> board e' ! x ! y = 0))"
  using minimax_move_empty [OF well_formed_corner set_semantics_remdups]
    well_formed_corner set_semantics_remdups
  by blast

text \<open>
  C10: a call of \<open>minimax\<close> on a well-formed engine leaves every key of the table in
  the table, with a stored depth that is not smaller; an entry is replaced only by one
  of a strictly greater depth.
\<close>

theorem minimax_table_grows:
  "well_formed e \<Longrightarrow> set_semantics sl \<Longrightarrow>
     \<exists>r e'. minimax Z sl e d alpha beta mx = Some (r, e')
       \<and> table_grows (transposition_table e) (transposition_table e')"
  using minimax_ok [of sl e Z d alpha beta mx]
  by (auto simp: call_ok_def)

theorem minimax_table_grows_witness:
  "well_formed cached_engine \<and> set_semantics remdups
   \<and> (\<exists>r e'. minimax Z0 remdups cached_engine 3 NegInf PosInf True = Some (r, e')
         \<and> table_grows (transposition_table cached_engine) (transposition_table e')
         \<and> (\<exists>entry'. transposition_table e' (Z0 0 0 1) = Some entry' \<and> 2 \<le> tt_depth entry'))"
proof -
  from minimax_table_grows [OF well_formed_cached set_semantics_remdups]
  obtain r e' where m: "minimax Z0 remdups cached_engine 3 NegInf PosInf True = Some (r, e')"
    and g: "table_grows (transposition_table cached_engine) (transposition_table e')"
    by blast
  have "transposition_table cached_engine (Z0 0 0 1) = Some \<lparr>tt_score = Fin 7, tt_depth = 2\<rparr>"
    by (simp add: cached_engine_def)
  with g have "\<exists>entry'. transposition_table e' (Z0 0 0 1) = Some entry' \<and> 2 \<le> tt_depth entry'"
    unfolding table_grows_def by fastforce
  with m g well_formed_cached set_semantics_remdups show ?thesis
    by blast
qed

lemma minimax_miss:
  "zobrist_hash Z e = Some h \<Longrightarrow> cache_lookup e h d = None \<Longrightarrow>
     minimax Z sl e d alpha beta mx = search_node Z sl e h d alpha beta mx"
  by (simp add: minimax.simps search_node_def)

text \<open>
  C3, as amended: at a node that is not in the table, is not terminal and has no
  candidate, \<open>minimax\<close> returns (it does not raise) no move, with the alpha it was
  given when maximizing and the beta it was given when minimizing; the engine is
  unchanged.
\<close>

theorem minimax_no_candidates:
  "zobrist_hash Z e = Some h \<Longrightarrow> cache_lookup e h d = None \<Longrightarrow> terminal e d = Some False \<Longrightarrow>
     available_moves sl e = Some [] \<Longrightarrow>
     minimax Z sl e d alpha beta mx = Some ((if mx then alpha else beta, None), e)"
  by (simp add: minimax_search)

lemma empty_engine_facts:
  "zobrist_hash Z0 empty_engine = Some 0" "cache_lookup empty_engine 0 1 = None"
  "terminal empty_engine 1 = Some False" "available_moves remdups empty_engine = Some []"
  "evaluate_board empty_engine = Some (Fin 0)"
  by (code_simp, simp add: cache_lookup_def empty_engine_def init_engine_def, code_simp, code_simp,
      code_simp)

theorem minimax_no_candidates_witness:
  "zobrist_hash Z0 empty_engine = Some 0 \<and> cache_lookup empty_engine 0 1 = None
   \<and> terminal empty_engine 1 = Some False \<and> available_moves remdups empty_engine = Some []
   \<and> minimax Z0 remdups empty_engine 1 (Fin 3) (Fin 5) False = Some ((Fin 5, None), empty_engine)"
  using minimax_no_candidates [of Z0 empty_engine 0 1 remdups "Fin 3" "Fin 5" False]
    empty_engine_facts
  by simp

text \<open>
  C3, as stated, fails: on the empty board at depth 1, with alpha at minus infinity,
  the call returns minus infinity and not the static score, which is 0.
\<close>

theorem minimax_no_candidates_not_static:
  "zobrist_hash Z0 empty_engine = Some 0 \<and> cache_lookup empty_engine 0 1 = None
   \<and> terminal empty_engine 1 = Some False \<and> available_moves remdups empty_engine = Some []
   \<and> evaluate_board empty_engine = Some (Fin 0)
   \<and> minimax Z0 remdups empty_engine 1 NegInf PosInf True = Some ((NegInf, None), empty_engine)"
  using empty_engine_facts by (simp add: minimax_search)

lemma zobrist_hash_cached: "zobrist_hash Z0 cached_engine = Some (Z0 0 0 1)"
proof -
  have occ: "occupied cached_engine = [(0, 0)]"
    by (simp add: occupied_def cached_engine_def corner_engine_def init_engine_def cells_def
        upt_conv_Cons)
  have b: "board cached_engine ! 0 ! 0 = 1"
    by (simp add: cached_engine_def corner_engine_def init_engine_def)
  show ?thesis
    unfolding zobrist_hash_occupied [OF well_formed_cached] occ
    by (simp add: xor_entry_def b)
qed

subsection \<open>The calls made on a hit in the table\<close>

lemma fst_terminal_traced: "fst (terminal_traced e d) = terminal e d"
  by (simp add: terminal_traced_def terminal_def split: option.splits bool.splits)

lemma untraced_minimax:
  "untraced (minimax_traced Z sl e d alpha beta mx) = minimax Z sl e d alpha beta mx"
  "untraced (minimax_moves_traced Z sl e d alpha beta mx best moves)
     = minimax_moves Z sl e d alpha beta mx best moves"
proof (induction Z sl e d alpha beta mx and Z sl e d alpha beta mx best moves
    rule: minimax_traced_minimax_moves_traced.induct)
  case (1 Z sl e d alpha beta mx)
  show ?case
  proof (cases "zobrist_hash Z e")
    case None
    then show ?thesis by (simp add: minimax_traced.simps minimax.simps untraced_def)
  next
    case (Some h)
    show ?thesis
    proof (cases "cache_lookup e h d")
      case hit: (Some s)
      with Some show ?thesis by (simp add: minimax_traced.simps minimax.simps untraced_def)
    next
      case None
      obtain t calls where tt: "terminal_traced e d = (t, calls)"
        by (cases "terminal_traced e d")
      with fst_terminal_traced [of e d] have t: "terminal e d = t" by simp
      show ?thesis
      proof (cases t)
        case tn: None
        with Some None tt t show ?thesis
          by (simp add: minimax_traced.simps minimax.simps untraced_def)
      next
        case (Some b)
        note tb = this
        show ?thesis
        proof (cases b)
          case True
          with \<open>zobrist_hash Z e = Some h\<close> None tt t tb show ?thesis
            by (simp add: minimax_traced.simps minimax.simps untraced_def split: option.splits)
        next
          case False
          show ?thesis
          proof (cases "available_moves sl e")
            case an: None
            with \<open>zobrist_hash Z e = Some h\<close> None tt t tb False show ?thesis
              by (simp add: minimax_traced.simps minimax.simps untraced_def)
          next
            case (Some moves)
            from False have bf: "b = False" by simp
            from "1.IH" [OF \<open>zobrist_hash Z e = Some h\<close> None tt [symmetric] tb bf Some]
            have ih: "untraced (minimax_moves_traced Z sl e (d - 1) alpha beta mx None moves)
                = minimax_moves Z sl e (d - 1) alpha beta mx None moves" .
            have tf: "terminal_traced e d = (Some False, calls)" "terminal e d = Some False"
              using tt t tb bf by simp_all
            show ?thesis
            proof (cases "minimax_moves_traced Z sl e (d - 1) alpha beta mx None moves")
              case mn: None
              with ih have "minimax_moves Z sl e (d - 1) alpha beta mx None moves = None"
                by (simp add: untraced_def)
              with mn \<open>zobrist_hash Z e = Some h\<close> None tf Some show ?thesis
                by (simp add: minimax_traced.simps minimax.simps untraced_def)
            next
              case ms: (Some r)
              obtain a b' m e' calls' where r: "r = ((a, b', m), e', calls')"
                by (cases r) auto
              with ms ih have "minimax_moves Z sl e (d - 1) alpha beta mx None moves
                  = Some ((a, b', m), e')"
                by (simp add: untraced_def)
              with ms r \<open>zobrist_hash Z e = Some h\<close> None tf Some show ?thesis
                by (simp add: minimax_traced.simps minimax.simps untraced_def)
            qed
          qed
        qed
      qed
    qed
  qed
next
  case (2 Z sl e d alpha beta mx best)
  show ?case by (simp add: untraced_def)
next
  case (3 Z sl e d alpha beta mx best x y moves)
  let ?role = "if mx then ai_role e else opponent_role e"
  show ?case
  proof (cases "set_cell (board e) x y ?role")
    case None
    then show ?thesis by (simp add: untraced_def)
  next
    case (Some placed)
    note pl = this
    from "3.IH" (1) [OF pl]
    have ih1: "untraced (minimax_traced Z sl (e\<lparr>board := placed\<rparr>) d alpha beta (\<not> mx))
        = minimax Z sl (e\<lparr>board := placed\<rparr>) d alpha beta (\<not> mx)" .
    show ?thesis
    proof (cases "minimax_traced Z sl (e\<lparr>board := placed\<rparr>) d alpha beta (\<not> mx)")
      case None
      with ih1 have "minimax Z sl (e\<lparr>board := placed\<rparr>) d alpha beta (\<not> mx) = None"
        by (simp add: untraced_def)
      with None pl show ?thesis by (simp add: untraced_def)
    next
      case (Some r)
      obtain ev m e1 calls1 where r: "r = ((ev, m), e1, calls1)"
        by (cases r) auto
      from Some r have mt: "minimax_traced Z sl (e\<lparr>board := placed\<rparr>) d alpha beta (\<not> mx)
          = Some ((ev, m), e1, calls1)" by simp
      with ih1 have mm: "minimax Z sl (e\<lparr>board := placed\<rparr>) d alpha beta (\<not> mx)
          = Some ((ev, m), e1)"
        by (simp add: untraced_def)
      show ?thesis
      proof (cases "set_cell (board e1) x y 0")
        case None
        with pl mt mm show ?thesis by (simp add: untraced_def)
      next
        case (Some undone)
        note un = this
        obtain a' b' m' where im: "improve mx ev (x, y) (alpha, beta, best) = (a', b', m')"
          by (cases "improve mx ev (x, y) (alpha, beta, best)") auto
        show ?thesis
        proof (cases "b' \<le> a'")
          case True
          with pl mt mm un im show ?thesis by (simp add: untraced_def)
        next
          case False
          from "3.IH" (2) [OF pl mt refl refl refl un im [symmetric] refl False]
          have ih2: "untraced (minimax_moves_traced Z sl (e1\<lparr>board := undone\<rparr>) d a' b' mx m' moves)
              = minimax_moves Z sl (e1\<lparr>board := undone\<rparr>) d a' b' mx m' moves" .
          show ?thesis
          proof (cases "minimax_moves_traced Z sl (e1\<lparr>board := undone\<rparr>) d a' b' mx m' moves")
            case None
            with ih2 have "minimax_moves Z sl (e1\<lparr>board := undone\<rparr>) d a' b' mx m' moves = None"
              by (simp add: untraced_def)
            with None pl mt mm un im False show ?thesis by (simp add: untraced_def)
          next
            case (Some r2)
            obtain v e2 calls2 where r2: "r2 = (v, e2, calls2)" by (cases r2) auto
            with Some ih2 have "minimax_moves Z sl (e1\<lparr>board := undone\<rparr>) d a' b' mx m' moves
                = Some (v, e2)"
              by (simp add: untraced_def)
            with Some r2 pl mt mm un im False show ?thesis by (simp add: untraced_def)
          qed
        qed
      qed
    qed
  qed
qed


lemma minimax_traced_hit:
  "zobrist_hash Z e = Some h \<Longrightarrow> cache_lookup e h d = Some s \<Longrightarrow>
     minimax_traced Z sl e d alpha beta mx = Some ((s, None), e, [Call_zobrist_hash])"
  by (simp add: minimax_traced.simps)

lemma minimax_traced_miss:
  assumes "zobrist_hash Z e = Some h" and "cache_lookup e h d = None"
    and "minimax_traced Z sl e d alpha beta mx = Some (r, e', calls)"
  shows "Call_evaluate_board \<in> set calls \<or> Call_available_moves \<in> set calls"
proof -
  obtain t cs where t: "terminal_traced e d = (t, cs)"
    by (cases "terminal_traced e d")
  from assms t show ?thesis
    by (auto simp: minimax_traced.simps split: option.splits bool.splits)
qed

text \<open>
  C4: when the fingerprint of the position is in the table with a stored depth that is
  at least the requested one, \<open>minimax\<close> returns the stored score and no move and
  leaves the engine as it is, and the only call it has made is the one of
  \<open>zobrist_hash\<close>: no call of \<open>is_winning_move\<close>, of \<open>evaluate_board\<close>, of
  \<open>available_moves\<close> or of \<open>minimax\<close> itself. With a smaller stored depth the call
  goes on as it does when the fingerprint is not in the table, and when it returns it
  has called \<open>evaluate_board\<close> or \<open>available_moves\<close>. The calls are those of
  \<open>minimax_traced\<close>, which is \<open>minimax\<close> with the list of its calls.
\<close>

theorem minimax_cache_hit:
  "zobrist_hash Z e = Some h \<Longrightarrow>
     untraced (minimax_traced Z sl e d alpha beta mx) = minimax Z sl e d alpha beta mx
     \<and> (\<forall>entry. transposition_table e h = Some entry \<and> d \<le> tt_depth entry \<longrightarrow>
          minimax Z sl e d alpha beta mx = Some ((tt_score entry, None), e)
          \<and> minimax_traced Z sl e d alpha beta mx
              = Some ((tt_score entry, None), e, [Call_zobrist_hash]))
     \<and> (transposition_table e h = None \<or> (\<exists>entry. transposition_table e h = Some entry \<and> tt_depth entry < d) \<longrightarrow>
          minimax Z sl e d alpha beta mx = search_node Z sl e h d alpha beta mx
          \<and> (\<forall>r e' calls. minimax_traced Z sl e d alpha beta mx = Some (r, e', calls) \<longrightarrow>
                Call_evaluate_board \<in> set calls \<or> Call_available_moves \<in> set calls))"
proof (intro conjI allI impI)
  show "untraced (minimax_traced Z sl e d alpha beta mx) = minimax Z sl e d alpha beta mx"
    by (rule untraced_minimax)
next
  fix entry
  assume "zobrist_hash Z e = Some h" and "transposition_table e h = Some entry \<and> d \<le> tt_depth entry"
  then show "minimax Z sl e d alpha beta mx = Some ((tt_score entry, None), e)"
    by (simp add: minimax_hit cache_lookup_def)
next
  fix entry
  assume "zobrist_hash Z e = Some h" and "transposition_table e h = Some entry \<and> d \<le> tt_depth entry"
  then show "minimax_traced Z sl e d alpha beta mx = Some ((tt_score entry, None), e, [Call_zobrist_hash])"
    by (simp add: minimax_traced_hit cache_lookup_def)
next
  assume h: "zobrist_hash Z e = Some h"
    and "transposition_table e h = None \<or> (\<exists>entry. transposition_table e h = Some entry \<and> tt_depth entry < d)"
  then have miss: "cache_lookup e h d = None"
    by (auto simp: cache_lookup_def)
  from h miss show "minimax Z sl e d alpha beta mx = search_node Z sl e h d alpha beta mx"
    by (rule minimax_miss)
  fix r e' calls
  assume "minimax_traced Z sl e d alpha beta mx = Some (r, e', calls)"
  with h miss show "Call_evaluate_board \<in> set calls \<or> Call_available_moves \<in> set calls"
    by (rule minimax_traced_miss)
qed

theorem minimax_cache_hit_witness:
  "zobrist_hash Z0 cached_engine = Some (Z0 0 0 1)
   \<and> transposition_table cached_engine (Z0 0 0 1) = Some \<lparr>tt_score = Fin 7, tt_depth = 2\<rparr>
   \<and> minimax Z0 remdups cached_engine 2 NegInf PosInf True = Some ((Fin 7, None), cached_engine)
   \<and> minimax_traced Z0 remdups cached_engine 2 NegInf PosInf True
       = Some ((Fin 7, None), cached_engine, [Call_zobrist_hash])
   \<and> minimax Z0 remdups cached_engine 3 NegInf PosInf True
       = search_node Z0 remdups cached_engine (Z0 0 0 1) 3 NegInf PosInf True
   \<and> (\<exists>r e' calls. minimax_traced Z0 remdups cached_engine 3 NegInf PosInf True = Some (r, e', calls)
        \<and> (Call_evaluate_board \<in> set calls \<or> Call_available_moves \<in> set calls))"
proof -
  have t: "transposition_table cached_engine (Z0 0 0 1) = Some \<lparr>tt_score = Fin 7, tt_depth = 2\<rparr>"
    by (simp add: cached_engine_def)
  note hit = minimax_cache_hit [OF zobrist_hash_cached, of remdups 2 NegInf PosInf True]
  note miss = minimax_cache_hit [OF zobrist_hash_cached, of remdups 3 NegInf PosInf True]
  from hit t
  have two: "minimax Z0 remdups cached_engine 2 NegInf PosInf True = Some ((Fin 7, None), cached_engine)"
    "minimax_traced Z0 remdups cached_engine 2 NegInf PosInf True
       = Some ((Fin 7, None), cached_engine, [Call_zobrist_hash])"
    by simp_all
  from miss t
  have three: "minimax Z0 remdups cached_engine 3 NegInf PosInf True
       = search_node Z0 remdups cached_engine (Z0 0 0 1) 3 NegInf PosInf True"
    by simp
  from minimax_ok [OF set_semantics_remdups well_formed_cached, of Z0 3 NegInf PosInf True]
  obtain s mv e' where "minimax Z0 remdups cached_engine 3 NegInf PosInf True = Some ((s, mv), e')"
    by blast
  with miss obtain calls
    where c: "minimax_traced Z0 remdups cached_engine 3 NegInf PosInf True = Some ((s, mv), e', calls)"
    by (cases "minimax_traced Z0 remdups cached_engine 3 NegInf PosInf True")
      (auto simp: untraced_def)
  with miss t have "Call_evaluate_board \<in> set calls \<or> Call_available_moves \<in> set calls"
    by simp
  with c have "\<exists>r e' calls. minimax_traced Z0 remdups cached_engine 3 NegInf PosInf True = Some (r, e', calls)
        \<and> (Call_evaluate_board \<in> set calls \<or> Call_available_moves \<in> set calls)"
    by blast
  with zobrist_hash_cached t two three show ?thesis
    by simp
qed

subsection \<open>The search with the table is the search without it\<close>

lemma run_length_table [simp]:
  "run_length (p\<lparr>transposition_table := t\<rparr>) role k x y dx dy = run_length p role k x y dx dy"
  by (induction k arbitrary: x y) (simp_all add: holds_def)

lemma well_formed_table [simp]:
  "well_formed (p\<lparr>transposition_table := t\<rparr>) = well_formed p"
  by (simp add: well_formed_def)

lemma zobrist_hash_table [simp]:
  "zobrist_hash Z (p\<lparr>transposition_table := t\<rparr>) = zobrist_hash Z p"
  by (simp add: zobrist_hash_def)

lemma five_in_a_row_table [simp]:
  "five_in_a_row (p\<lparr>transposition_table := t\<rparr>) role = five_in_a_row p role"
  by (simp add: five_in_a_row_def five_from_def holds_def)

lemma terminal_won:
  "well_formed p \<Longrightarrow>
     terminal p d = Some (d = 0 \<or> five_in_a_row p (ai_role p) \<or> five_in_a_row p (opponent_role p))"
  by (cases "five_in_a_row p (ai_role p)") (auto simp: terminal_def is_winning_move_win)

lemma terminal_table:
  "well_formed p \<Longrightarrow> terminal (p\<lparr>transposition_table := t\<rparr>) d = terminal p d"
  by (simp add: terminal_won)

lemma stones_table [simp]: "stones (p\<lparr>transposition_table := t\<rparr>) role = stones p role"
  by (simp add: stones_def)

lemma run_from_table [simp]: "run_from (p\<lparr>transposition_table := t\<rparr>) role = run_from p role"
  by (simp add: run_from_def)

lemma line_score_table [simp]:
  "line_score (p\<lparr>transposition_table := t\<rparr>) role = line_score p role"
  by (simp add: line_score_def)

lemma evaluate_board_table:
  "well_formed p \<Longrightarrow> evaluate_board (p\<lparr>transposition_table := t\<rparr>) = evaluate_board p"
  by (simp add: evaluate_board_line_score)

lemma added_table [simp]: "added (p\<lparr>transposition_table := t\<rparr>) = added p"
  by (simp add: added_def neighbour_def occupied_def holds_def)

lemma available_moves_table:
  "well_formed p \<Longrightarrow> available_moves sl (p\<lparr>transposition_table := t\<rparr>) = available_moves sl p"
  by (simp add: available_moves_added)

lemma is_terminal_mono:
  "well_formed p \<Longrightarrow> is_terminal p d' \<Longrightarrow> d \<le> d' \<Longrightarrow> is_terminal p d"
  by (auto simp: is_terminal_def terminal_won)

lemma static_evaluate: "well_formed p \<Longrightarrow> evaluate_board p = Some (static p)"
  by (simp add: static_def evaluate_board_line_score)

lemma moves_of_available: "well_formed p \<Longrightarrow> available_moves sl p = Some (moves_of sl p)"
  by (simp add: moves_of_def available_moves_added)

lemma terminal_is_terminal: "well_formed p \<Longrightarrow> terminal p d = Some (is_terminal p d)"
  by (auto simp: is_terminal_def terminal_won)

lemma set_moves_of:
  "well_formed p \<Longrightarrow> set_semantics sl \<Longrightarrow> set (moves_of sl p) = candidates p"
  by (simp add: moves_of_def available_moves_added set_semantics_def set_added)

lemma is_terminal_table [simp]:
  "well_formed p \<Longrightarrow> is_terminal (p\<lparr>transposition_table := t\<rparr>) d = is_terminal p d"
  by (simp add: is_terminal_def terminal_table)

lemma static_table [simp]:
  "well_formed p \<Longrightarrow> static (p\<lparr>transposition_table := t\<rparr>) = static p"
  by (simp add: static_def evaluate_board_table)

lemma moves_of_table [simp]:
  "well_formed p \<Longrightarrow> moves_of sl (p\<lparr>transposition_table := t\<rparr>) = moves_of sl p"
  by (simp add: moves_of_def available_moves_table)

lemma table_board_swap [simp]:
  "p\<lparr>transposition_table := t, board := b\<rparr> = p\<lparr>board := b, transposition_table := t\<rparr>"
  by simp

lemma collision_freeD:
  "collision_free Z p bs \<Longrightarrow> b1 \<in> set bs \<Longrightarrow> b2 \<in> set bs \<Longrightarrow>
     zobrist_hash Z (p\<lparr>board := b1\<rparr>) = zobrist_hash Z (p\<lparr>board := b2\<rparr>) \<Longrightarrow> b1 = b2"
  by (simp add: collision_free_def list_all_iff)

lemma board_reach: "board p \<in> set (reach sl p d mx)"
  by (cases d) simp_all

lemma reach_child:
  "\<not> is_terminal p (Suc d) \<Longrightarrow> m \<in> set (moves_of sl p) \<Longrightarrow>
     set (reach sl (child p m mx) d (\<not> mx)) \<subseteq> set (reach sl p (Suc d) mx)"
  by auto

lemma child_board:
  "child (p0\<lparr>board := b\<rparr>) (x, y) mx
     = p0\<lparr>board := place b x y (if mx then ai_role p0 else opponent_role p0)\<rparr>"
  by (simp add: child_def)

lemma table_ok_store:
  assumes cf: "collision_free Z p0 bs" and b: "b \<in> set bs"
    and ok: "table_ok Z p0 (set bs) t"
    and h: "zobrist_hash Z (p0\<lparr>board := b\<rparr>) = Some h"
    and tm: "is_terminal (p0\<lparr>board := b\<rparr>) d"
  shows "table_ok Z p0 (set bs)
     (t(h \<mapsto> \<lparr>tt_score = static (p0\<lparr>board := b\<rparr>), tt_depth = d\<rparr>))"
  unfolding table_ok_def
proof (intro ballI allI impI)
  fix b' h' entry
  assume b': "b' \<in> set bs"
    and a: "zobrist_hash Z (p0\<lparr>board := b'\<rparr>) = Some h' \<and>
      (t(h \<mapsto> \<lparr>tt_score = static (p0\<lparr>board := b\<rparr>), tt_depth = d\<rparr>)) h' = Some entry"
  show "static (p0\<lparr>board := b'\<rparr>) = tt_score entry \<and> is_terminal (p0\<lparr>board := b'\<rparr>) (tt_depth entry)"
  proof (cases "h' = h")
    case True
    with a h have "zobrist_hash Z (p0\<lparr>board := b'\<rparr>) = zobrist_hash Z (p0\<lparr>board := b\<rparr>)"
      by simp
    with cf b' b have "b' = b"
      by (rule collision_freeD)
    with True a tm show ?thesis by auto
  next
    case False
    with a b' ok show ?thesis
      unfolding table_ok_def by auto
  qed
qed

lemma minimax_moves_ab:
  assumes sl: "set_semantics sl"
    and node: "\<And>b t alpha beta mx. well_formed (p0\<lparr>board := b\<rparr>) \<Longrightarrow>
        set (reach sl (p0\<lparr>board := b\<rparr>) d mx) \<subseteq> T \<Longrightarrow> table_ok Z p0 T t \<Longrightarrow>
        \<exists>t'. minimax Z sl (p0\<lparr>board := b, transposition_table := t\<rparr>) d alpha beta mx
               = Some (ab sl (p0\<lparr>board := b\<rparr>) d alpha beta mx,
                       p0\<lparr>board := b, transposition_table := t'\<rparr>)
            \<and> table_ok Z p0 T t'"
  shows "well_formed (p0\<lparr>board := b\<rparr>) \<Longrightarrow> set moves \<subseteq> candidates (p0\<lparr>board := b\<rparr>) \<Longrightarrow>
     (\<forall>m\<in>set moves. set (reach sl (child (p0\<lparr>board := b\<rparr>) m mx) d (\<not> mx)) \<subseteq> T) \<Longrightarrow>
     table_ok Z p0 T t \<Longrightarrow>
     \<exists>t'. minimax_moves Z sl (p0\<lparr>board := b, transposition_table := t\<rparr>) d alpha beta mx best moves
            = Some (ab_moves sl (p0\<lparr>board := b\<rparr>) d alpha beta mx best moves,
                    p0\<lparr>board := b, transposition_table := t'\<rparr>)
         \<and> table_ok Z p0 T t'"
proof (induction moves arbitrary: t alpha beta best)
  case Nil
  then show ?case by (intro exI [of _ t]) simp
next
  case (Cons m moves)
  obtain x y where m: "m = (x, y)" by (cases m)
  let ?p = "p0\<lparr>board := b\<rparr>"
  let ?v = "if mx then ai_role p0 else opponent_role p0"
  let ?b1 = "place b x y ?v"
  from Cons.prems(2) have "(x, y) \<in> candidates ?p"
    by (simp add: m)
  then have xy: "x < size_e ?p" "y < size_e ?p" "board ?p ! x ! y = 0"
    by (simp_all add: candidates_def)
  from Cons.prems(1) have v: "?v = 0 \<or> ?v = 1 \<or> ?v = 2"
    by (simp add: well_formed_def)
  note pl = well_formed_place [OF Cons.prems(1) xy(1,2) v]
  from pl(2) have wf1: "well_formed (p0\<lparr>board := ?b1\<rparr>)"
    by simp
  have ch: "child ?p (x, y) mx = p0\<lparr>board := ?b1\<rparr>"
    by (simp add: child_board)
  from Cons.prems(3) have r1: "set (reach sl (p0\<lparr>board := ?b1\<rparr>) d (\<not> mx)) \<subseteq> T"
    by (simp add: ch [symmetric] m)
  from node [OF wf1 r1 Cons.prems(4), of alpha beta] obtain t1 where
    call: "minimax Z sl (p0\<lparr>board := ?b1, transposition_table := t\<rparr>) d alpha beta (\<not> mx)
        = Some (ab sl (p0\<lparr>board := ?b1\<rparr>) d alpha beta (\<not> mx),
                p0\<lparr>board := ?b1, transposition_table := t1\<rparr>)"
    and ok1: "table_ok Z p0 T t1"
    by blast
  have undo: "set_cell ?b1 x y 0 = Some b"
    using set_cell_undo [OF Cons.prems(1) xy, of ?v] by simp
  obtain ev mv where ab1: "ab sl (p0\<lparr>board := ?b1\<rparr>) d alpha beta (\<not> mx) = (ev, mv)"
    by (cases "ab sl (p0\<lparr>board := ?b1\<rparr>) d alpha beta (\<not> mx)")
  obtain alpha' beta' best' where imp: "improve mx ev (x, y) (alpha, beta, best) = (alpha', beta', best')"
    by (cases "improve mx ev (x, y) (alpha, beta, best)")
  have step: "minimax_moves Z sl (p0\<lparr>board := b, transposition_table := t\<rparr>) d alpha beta mx best (m # moves) =
      (if beta' \<le> alpha' then Some ((alpha', beta', best'), p0\<lparr>board := b, transposition_table := t1\<rparr>)
       else minimax_moves Z sl (p0\<lparr>board := b, transposition_table := t1\<rparr>) d alpha' beta' mx best' moves)"
  proof (cases mx)
    case True
    with pl(1) call ab1 undo imp show ?thesis by (simp add: m)
  next
    case False
    with pl(1) call ab1 undo imp show ?thesis by (simp add: m)
  qed
  have step': "ab_moves sl ?p d alpha beta mx best (m # moves) =
      (if beta' \<le> alpha' then (alpha', beta', best')
       else ab_moves sl ?p d alpha' beta' mx best' moves)"
    by (simp add: ch ab1 m imp)
  show ?case
  proof (cases "beta' \<le> alpha'")
    case True
    with step step' ok1 show ?thesis by auto
  next
    case False
    from Cons.prems have "\<exists>t'. minimax_moves Z sl (p0\<lparr>board := b, transposition_table := t1\<rparr>) d alpha' beta' mx best' moves
            = Some (ab_moves sl ?p d alpha' beta' mx best' moves,
                    p0\<lparr>board := b, transposition_table := t'\<rparr>)
         \<and> table_ok Z p0 T t'"
      by (intro Cons.IH ok1) simp_all
    with False step step' show ?thesis by auto
  qed
qed

lemma minimax_ab:
  assumes sl: "set_semantics sl" and cf: "collision_free Z p0 bs"
  shows "well_formed (p0\<lparr>board := b\<rparr>) \<Longrightarrow> set (reach sl (p0\<lparr>board := b\<rparr>) d mx) \<subseteq> set bs \<Longrightarrow>
     table_ok Z p0 (set bs) t \<Longrightarrow>
     \<exists>t'. minimax Z sl (p0\<lparr>board := b, transposition_table := t\<rparr>) d alpha beta mx
            = Some (ab sl (p0\<lparr>board := b\<rparr>) d alpha beta mx,
                    p0\<lparr>board := b, transposition_table := t'\<rparr>)
         \<and> table_ok Z p0 (set bs) t'"
proof (induction d arbitrary: b t alpha beta mx rule: less_induct)
  case (less d)
  let ?p = "p0\<lparr>board := b\<rparr>"
  let ?e = "p0\<lparr>board := b, transposition_table := t\<rparr>"
  from less.prems(1) obtain h where h: "zobrist_hash Z ?p = Some h"
    by (simp add: zobrist_hash_occupied)
  then have he: "zobrist_hash Z ?e = Some h"
    by simp
  have bT: "b \<in> set bs"
    using less.prems(2) board_reach [of ?p sl d mx] by auto
  have tm: "terminal ?e d = Some (is_terminal ?p d)"
    using less.prems(1) by (simp add: terminal_table terminal_is_terminal)
  have ev: "evaluate_board ?e = Some (static ?p)"
    using less.prems(1) by (simp add: evaluate_board_table static_evaluate)
  have mv: "available_moves sl ?e = Some (moves_of sl ?p)"
    using less.prems(1) by (simp add: available_moves_table moves_of_available)
  show ?case
  proof (cases "cache_lookup ?e h d")
    case (Some s)
    then obtain entry where en: "t h = Some entry" "d \<le> tt_depth entry" "s = tt_score entry"
      by (auto simp: cache_lookup_def split: option.splits if_splits)
    with less.prems(3) bT h have "static ?p = s" "is_terminal ?p (tt_depth entry)"
      unfolding table_ok_def by auto
    with en(2) less.prems(1) have "is_terminal ?p d"
      using is_terminal_mono by blast
    then have "ab sl ?p d alpha beta mx = (s, None)"
      using \<open>static ?p = s\<close> by (simp add: ab.simps)
    with Some he less.prems(3) show ?thesis
      by (auto simp: minimax_hit)
  next
    case None
    show ?thesis
    proof (cases "is_terminal ?p d")
      case True
      then have "ab sl ?p d alpha beta mx = (static ?p, None)"
        by (simp add: ab.simps)
      moreover have "minimax Z sl ?e d alpha beta mx
          = Some ((static ?p, None), store ?e h (static ?p) d)"
        using he None tm True ev by (simp add: minimax_terminal)
      moreover have "store ?e h (static ?p) d
          = p0\<lparr>board := b, transposition_table := t(h \<mapsto> \<lparr>tt_score = static ?p, tt_depth = d\<rparr>)\<rparr>"
        by (simp add: store_def)
      moreover have "table_ok Z p0 (set bs) (t(h \<mapsto> \<lparr>tt_score = static ?p, tt_depth = d\<rparr>))"
        using cf bT less.prems(3) h True by (rule table_ok_store)
      ultimately show ?thesis by auto
    next
      case False
      then have d0: "d \<noteq> 0"
        using less.prems(1) by (auto simp: is_terminal_def terminal_won)
      then obtain d' where d': "d = Suc d'"
        by (cases d) auto
      have "\<exists>t'. minimax_moves Z sl ?e (d - 1) alpha beta mx None (moves_of sl ?p)
            = Some (ab_moves sl ?p (d - 1) alpha beta mx None (moves_of sl ?p),
                    p0\<lparr>board := b, transposition_table := t'\<rparr>)
         \<and> table_ok Z p0 (set bs) t'"
      proof (rule minimax_moves_ab [OF sl])
        show "\<exists>t''. minimax Z sl (p0\<lparr>board := b', transposition_table := t'\<rparr>) (d - 1) alpha' beta' mx'
               = Some (ab sl (p0\<lparr>board := b'\<rparr>) (d - 1) alpha' beta' mx',
                       p0\<lparr>board := b', transposition_table := t''\<rparr>)
            \<and> table_ok Z p0 (set bs) t''"
          if "well_formed (p0\<lparr>board := b'\<rparr>)" "set (reach sl (p0\<lparr>board := b'\<rparr>) (d - 1) mx') \<subseteq> set bs"
            "table_ok Z p0 (set bs) t'" for b' t' alpha' beta' mx'
          using that less.IH [of "d - 1" b' mx' t' alpha' beta'] d0 by simp
        show "well_formed ?p" by (rule less.prems)
        show "set (moves_of sl ?p) \<subseteq> candidates ?p"
          using less.prems(1) sl by (simp add: set_moves_of)
        show "\<forall>m\<in>set (moves_of sl ?p). set (reach sl (child ?p m mx) (d - 1) (\<not> mx)) \<subseteq> set bs"
          using less.prems(2) False reach_child [of ?p d' m sl mx for m] unfolding d' by auto
        show "table_ok Z p0 (set bs) t" by (rule less.prems)
      qed
      then obtain t' where
        "minimax_moves Z sl ?e (d - 1) alpha beta mx None (moves_of sl ?p)
            = Some (ab_moves sl ?p (d - 1) alpha beta mx None (moves_of sl ?p),
                    p0\<lparr>board := b, transposition_table := t'\<rparr>)"
        "table_ok Z p0 (set bs) t'"
        by blast
      with he None tm False mv d0 show ?thesis
        by (auto simp: minimax_search ab.simps split: prod.splits)
    qed
  qed
qed

subsection \<open>Pruning does not change the result at the root\<close>

lemma bound_ok_refl: "bound_ok alpha beta v v"
  by (simp add: bound_ok_def)

lemma fold_max_ge: "a \<le> fold max vs (a :: pyfloat)"
proof (induction vs arbitrary: a)
  case Nil
  show ?case by simp
next
  case (Cons v vs)
  have "a \<le> max v a" by simp
  also have "\<dots> \<le> fold max vs (max v a)" by (rule Cons.IH)
  finally show ?case by simp
qed

lemma fold_min_le: "fold min vs (a :: pyfloat) \<le> a"
proof (induction vs arbitrary: a)
  case Nil
  show ?case by simp
next
  case (Cons v vs)
  have "fold min vs (min v a) \<le> min v a" by (rule Cons.IH)
  also have "\<dots> \<le> a" by simp
  finally show ?case by simp
qed

lemma improve_max:
  "improve True r m (alpha, beta, best) = (if alpha < r then (r, beta, Some m) else (alpha, beta, best))"
  by (simp add: improve_def)

lemma improve_min:
  "improve False r m (alpha, beta, best) = (if r < beta then (alpha, r, Some m) else (alpha, beta, best))"
  by (simp add: improve_def)

lemma ab_moves_max:
  assumes ch: "\<And>m a. m \<in> set ms \<Longrightarrow> a < beta \<Longrightarrow>
      bound_ok a beta (V m) (fst (ab sl (child p m True) d a beta False))"
    and ab: "alpha < beta"
  shows "\<exists>a' bm. ab_moves sl p d alpha beta True best ms = (a', beta, bm)
     \<and> (if fold max (map V ms) alpha < beta then a' = fold max (map V ms) alpha else beta \<le> a')"
  using assms
proof (induction ms arbitrary: alpha best)
  case Nil
  then show ?case by simp
next
  case (Cons m ms)
  let ?r = "fst (ab sl (child p m True) d alpha beta False)"
  have b: "bound_ok alpha beta (V m) ?r"
    using Cons.prems by simp
  have ch': "\<And>m a. m \<in> set ms \<Longrightarrow> a < beta \<Longrightarrow>
      bound_ok a beta (V m) (fst (ab sl (child p m True) d a beta False))"
    using Cons.prems(1) by simp
  show ?case
  proof (cases "alpha < ?r")
    case True
    show ?thesis
    proof (cases "beta \<le> ?r")
      case brk: True
      from b True brk Cons.prems(2) have "beta \<le> V m"
        unfolding bound_ok_def by (metis leD leI)
      also have "V m \<le> max (V m) alpha" by simp
      also have "\<dots> \<le> fold max (map V ms) (max (V m) alpha)" by (rule fold_max_ge)
      finally have "\<not> fold max (map V (m # ms)) alpha < beta"
        by simp
      with True brk show ?thesis
        by (simp add: improve_max)
    next
      case False
      then have rb: "?r < beta" by simp
      from b True rb Cons.prems(2) have "V m = ?r"
        unfolding bound_ok_def by (metis leD leI)
      with True have mx: "max (V m) alpha = ?r"
        by (simp add: max.absorb1 less_imp_le)
      from Cons.IH [OF ch' rb, of "Some m"] obtain a' bm where
        "ab_moves sl p d ?r beta True (Some m) ms = (a', beta, bm)"
        "if fold max (map V ms) ?r < beta then a' = fold max (map V ms) ?r else beta \<le> a'"
        by blast
      with True False mx show ?thesis
        by (simp add: improve_max)
    qed
  next
    case False
    from b False Cons.prems(2) have "V m \<le> alpha"
      unfolding bound_ok_def by (metis leD leI order.strict_trans2)
    then have mx: "max (V m) alpha = alpha"
      by (simp add: max.absorb2)
    from Cons.IH [OF ch' Cons.prems(2), of best] obtain a' bm where
      "ab_moves sl p d alpha beta True best ms = (a', beta, bm)"
      "if fold max (map V ms) alpha < beta then a' = fold max (map V ms) alpha else beta \<le> a'"
      by blast
    moreover from Cons.prems(2) have "\<not> beta \<le> alpha"
      by (simp add: not_le)
    ultimately show ?thesis
      using False mx by (simp add: improve_max)
  qed
qed

lemma ab_moves_min:
  assumes ch: "\<And>m b. m \<in> set ms \<Longrightarrow> alpha < b \<Longrightarrow>
      bound_ok alpha b (V m) (fst (ab sl (child p m False) d alpha b True))"
    and ab: "alpha < beta"
  shows "\<exists>b' bm. ab_moves sl p d alpha beta False best ms = (alpha, b', bm)
     \<and> (if alpha < fold min (map V ms) beta then b' = fold min (map V ms) beta else b' \<le> alpha)"
  using assms
proof (induction ms arbitrary: beta best)
  case Nil
  then show ?case by simp
next
  case (Cons m ms)
  let ?r = "fst (ab sl (child p m False) d alpha beta True)"
  have b: "bound_ok alpha beta (V m) ?r"
    using Cons.prems by simp
  have ch': "\<And>m b. m \<in> set ms \<Longrightarrow> alpha < b \<Longrightarrow>
      bound_ok alpha b (V m) (fst (ab sl (child p m False) d alpha b True))"
    using Cons.prems(1) by simp
  show ?case
  proof (cases "?r < beta")
    case True
    show ?thesis
    proof (cases "?r \<le> alpha")
      case brk: True
      from b True brk Cons.prems(2) have "V m \<le> alpha"
        unfolding bound_ok_def by (metis leD leI)
      have "fold min (map V ms) (min (V m) beta) \<le> min (V m) beta" by (rule fold_min_le)
      also have "\<dots> \<le> V m" by simp
      also note \<open>V m \<le> alpha\<close>
      finally have "\<not> alpha < fold min (map V (m # ms)) beta"
        by simp
      with True brk show ?thesis
        by (simp add: improve_min)
    next
      case False
      then have ra: "alpha < ?r" by simp
      from b True ra Cons.prems(2) have "V m = ?r"
        unfolding bound_ok_def by (metis leD leI)
      with True have mn: "min (V m) beta = ?r"
        by (simp add: min.absorb1 less_imp_le)
      from Cons.IH [OF ch' ra, of "Some m"] obtain b' bm where
        "ab_moves sl p d alpha ?r False (Some m) ms = (alpha, b', bm)"
        "if alpha < fold min (map V ms) ?r then b' = fold min (map V ms) ?r else b' \<le> alpha"
        by blast
      with True False mn show ?thesis
        by (simp add: improve_min)
    qed
  next
    case False
    from b False Cons.prems(2) have "beta \<le> V m"
      unfolding bound_ok_def by (metis leD leI order.strict_trans1)
    then have mn: "min (V m) beta = beta"
      by (simp add: min.absorb2)
    from Cons.IH [OF ch' Cons.prems(2), of best] obtain b' bm where
      "ab_moves sl p d alpha beta False best ms = (alpha, b', bm)"
      "if alpha < fold min (map V ms) beta then b' = fold min (map V ms) beta else b' \<le> alpha"
      by blast
    moreover from Cons.prems(2) have "\<not> beta \<le> alpha"
      by (simp add: not_le)
    ultimately show ?thesis
      using False mn by (simp add: improve_min)
  qed
qed


lemma well_formed_child:
  assumes "well_formed p" "m \<in> candidates p"
  shows "well_formed (child p m mx)"
proof -
  obtain x y where m: "m = (x, y)" by (cases m)
  from assms(2) have xy: "x < size_e p" "y < size_e p"
    by (simp_all add: m candidates_def)
  from assms(1) have "(if mx then ai_role p else opponent_role p) = 0
      \<or> (if mx then ai_role p else opponent_role p) = 1 \<or> (if mx then ai_role p else opponent_role p) = 2"
    by (simp add: well_formed_def)
  from well_formed_place(2) [OF assms(1) xy this] show ?thesis
    by (simp add: child_def m)
qed

lemma static_finite: "well_formed p \<Longrightarrow> \<exists>q. static p = Fin q"
  by (simp add: static_def evaluate_board_line_score)

lemma fold_max_Max: "vs \<noteq> [] \<Longrightarrow> fold max vs (a :: pyfloat) = max a (Max (set vs))"
  using Max.set_eq_fold [of a vs] by simp

lemma fold_min_Min: "vs \<noteq> [] \<Longrightarrow> fold min vs (a :: pyfloat) = min a (Min (set vs))"
  using Min.set_eq_fold [of a vs] by simp

lemma fst_pick_best:
  "fst (pick_best mx (map (\<lambda>m. (V m, m)) ms))
     = (if mx then Max (set (map V ms)) else Min (set (map V ms)))"
  by (simp add: pick_best_def Let_def comp_def)

lemma exhaustive_finite:
  assumes sl: "set_semantics sl"
  shows "well_formed p \<Longrightarrow> no_dead_end sl p d mx \<Longrightarrow> \<exists>q. fst (exhaustive sl p d mx) = Fin q"
proof (induction d arbitrary: p mx)
  case 0
  then show ?case by (simp add: static_finite)
next
  case (Suc d)
  show ?case
  proof (cases "is_terminal p (Suc d) \<or> moves_of sl p = []")
    case True
    with Suc.prems show ?thesis by (auto simp: static_finite)
  next
    case False
    let ?V = "\<lambda>m. fst (exhaustive sl (child p m mx) d (\<not> mx))"
    let ?vs = "map ?V (moves_of sl p)"
    from False Suc.prems(2) have nd: "\<forall>m\<in>set (moves_of sl p). no_dead_end sl (child p m mx) d (\<not> mx)"
      by (simp add: list_all_iff)
    have fin: "\<exists>q. v = Fin q" if "v \<in> set ?vs" for v
    proof -
      from that obtain m where m: "m \<in> set (moves_of sl p)" "v = ?V m"
        by auto
      with Suc.prems(1) sl have "well_formed (child p m mx)"
        by (simp add: well_formed_child set_moves_of)
      with nd m Suc.IH show ?thesis by blast
    qed
    from False have ne: "set ?vs \<noteq> {}" by simp
    have "Max (set ?vs) \<in> set ?vs" "Min (set ?vs) \<in> set ?vs"
      using ne by (simp_all del: set_map)
    with fin have "\<exists>q. Max (set ?vs) = Fin q" "\<exists>q. Min (set ?vs) = Fin q"
      by blast+
    moreover have "fst (exhaustive sl p (Suc d) mx)
        = (if mx then Max (set ?vs) else Min (set ?vs))"
      using False by (simp add: fst_pick_best del: set_map)
    ultimately show ?thesis
      by (cases mx) simp_all
  qed
qed

lemma ab_bound:
  assumes sl: "set_semantics sl"
  shows "well_formed p \<Longrightarrow> no_dead_end sl p d mx \<Longrightarrow> alpha < beta \<Longrightarrow>
     bound_ok alpha beta (fst (exhaustive sl p d mx)) (fst (ab sl p d alpha beta mx))"
proof (induction d arbitrary: p mx alpha beta)
  case 0
  then show ?case by (simp add: ab.simps bound_ok_refl)
next
  case (Suc d)
  show ?case
  proof (cases "is_terminal p (Suc d)")
    case True
    then show ?thesis by (simp add: ab.simps bound_ok_refl)
  next
    case False
    let ?ms = "moves_of sl p"
    let ?V = "\<lambda>m. fst (exhaustive sl (child p m mx) d (\<not> mx))"
    from False Suc.prems(2) have ne: "?ms \<noteq> []"
      and nd: "\<forall>m\<in>set ?ms. no_dead_end sl (child p m mx) d (\<not> mx)"
      by (simp_all add: list_all_iff)
    have wfc: "well_formed (child p m mx)" if "m \<in> set ?ms" for m
      using that Suc.prems(1) sl by (simp add: well_formed_child set_moves_of)
    have ch: "bound_ok a b (?V m) (fst (ab sl (child p m mx) d a b (\<not> mx)))"
      if "m \<in> set ?ms" "a < b" for m a b
      using that wfc nd by (intro Suc.IH) auto
    have ex: "fst (exhaustive sl p (Suc d) mx)
        = (if mx then Max (set (map ?V ?ms)) else Min (set (map ?V ?ms)))"
      using False ne by (simp add: fst_pick_best del: set_map)
    have vne: "map ?V ?ms \<noteq> []"
      using ne by simp
    show ?thesis
    proof (cases mx)
      case True
      have "\<exists>a' bm. ab_moves sl p d alpha beta True None ?ms = (a', beta, bm)
         \<and> (if fold max (map ?V ?ms) alpha < beta then a' = fold max (map ?V ?ms) alpha
             else beta \<le> a')"
      proof (rule ab_moves_max [OF _ Suc.prems(3)])
        fix m a assume "m \<in> set ?ms" "a < beta"
        then show "bound_ok a beta (?V m) (fst (ab sl (child p m True) d a beta False))"
          using ch [of m a beta] True by simp
      qed
      then obtain a' bm where r: "ab_moves sl p d alpha beta True None ?ms = (a', beta, bm)"
        and a': "if max alpha (Max (set (map ?V ?ms))) < beta
                 then a' = max alpha (Max (set (map ?V ?ms))) else beta \<le> a'"
        unfolding fold_max_Max [OF vne] by blast
      have "fst (ab sl p (Suc d) alpha beta mx) = a'"
        using False r True by (simp add: ab.simps)
      moreover have "bound_ok alpha beta (Max (set (map ?V ?ms))) a'"
        using a' Suc.prems(3) unfolding bound_ok_def
        by (auto simp: max_def not_le not_less split: if_splits)
      ultimately show ?thesis
        using ex True by simp
    next
      case mn: False
      have "\<exists>b' bm. ab_moves sl p d alpha beta False None ?ms = (alpha, b', bm)
         \<and> (if alpha < fold min (map ?V ?ms) beta then b' = fold min (map ?V ?ms) beta
             else b' \<le> alpha)"
      proof (rule ab_moves_min [OF _ Suc.prems(3)])
        fix m b assume "m \<in> set ?ms" "alpha < b"
        then show "bound_ok alpha b (?V m) (fst (ab sl (child p m False) d alpha b True))"
          using ch [of m alpha b] mn by simp
      qed
      then obtain b' bm where r: "ab_moves sl p d alpha beta False None ?ms = (alpha, b', bm)"
        and b': "if alpha < min beta (Min (set (map ?V ?ms)))
                 then b' = min beta (Min (set (map ?V ?ms))) else b' \<le> alpha"
        unfolding fold_min_Min [OF vne] by blast
      have "fst (ab sl p (Suc d) alpha beta mx) = b'"
        using False r mn by (simp add: ab.simps)
      moreover have "bound_ok alpha beta (Min (set (map ?V ?ms))) b'"
        using b' Suc.prems(3) unfolding bound_ok_def
        by (auto simp: min_def not_le not_less split: if_splits)
      ultimately show ?thesis
        using ex mn by simp
    qed
  qed
qed


lemma ab_moves_root:
  assumes ch: "\<And>m a. m \<in> set ms \<Longrightarrow> a < PosInf \<Longrightarrow>
      bound_ok a PosInf (V m) (fst (ab sl (child p m True) d a PosInf False))"
    and fin: "\<And>m. m \<in> set ms \<Longrightarrow> V m < PosInf"
    and a: "a < PosInf"
  shows "ab_moves sl p d a PosInf True best ms =
     (fold max (map V ms) a, PosInf,
      if a < fold max (map V ms) a
      then map_option snd (find (\<lambda>(v, m). v = fold max (map V ms) a) (map (\<lambda>m. (V m, m)) ms))
      else best)"
  using assms
proof (induction ms arbitrary: a best)
  case Nil
  then show ?case by simp
next
  case (Cons m ms)
  let ?r = "fst (ab sl (child p m True) d a PosInf False)"
  have b: "bound_ok a PosInf (V m) ?r"
    using Cons.prems by simp
  have vf: "V m < PosInf"
    using Cons.prems(2) by simp
  have ch': "\<And>m a. m \<in> set ms \<Longrightarrow> a < PosInf \<Longrightarrow>
      bound_ok a PosInf (V m) (fst (ab sl (child p m True) d a PosInf False))"
    using Cons.prems(1) by simp
  have fin': "\<And>m. m \<in> set ms \<Longrightarrow> V m < PosInf"
    using Cons.prems(2) by simp
  show ?case
  proof (cases "a < V m")
    case True
    with b vf have r: "?r = V m"
      by (simp add: bound_ok_def)
    from True have mx: "max (V m) a = V m"
      by (simp add: max.absorb1 less_imp_le)
    let ?M = "fold max (map V ms) (V m)"
    have ge: "V m \<le> ?M" by (rule fold_max_ge)
    with True have aM: "a < ?M" by simp
    from vf have nb: "\<not> PosInf \<le> V m"
      by (simp add: not_le)
    have eq: "(V m = ?M) = (\<not> V m < ?M)"
      using ge by auto
    have "ab_moves sl p d a PosInf True best (m # ms)
        = ab_moves sl p d (V m) PosInf True (Some m) ms"
      using True nb by (simp add: improve_max r)
    also have "\<dots> = (?M, PosInf,
      if V m < ?M then map_option snd (find (\<lambda>(v, m). v = ?M) (map (\<lambda>m. (V m, m)) ms))
      else Some m)"
      by (rule Cons.IH [OF ch' fin' vf])
    finally show ?thesis
      using aM by (simp add: mx eq)
  next
    case False
    then have le: "V m \<le> a" by simp
    with b have "?r \<le> a"
      by (simp add: bound_ok_def)
    then have nr: "\<not> a < ?r" by (simp add: not_less)
    from le have mx: "max (V m) a = a"
      by (simp add: max.absorb2)
    let ?M = "fold max (map V ms) a"
    from Cons.prems(3) have nb: "\<not> PosInf \<le> a"
      by (simp add: not_le)
    have ne: "a < ?M \<Longrightarrow> V m \<noteq> ?M"
      using le by auto
    have "ab_moves sl p d a PosInf True best (m # ms) = ab_moves sl p d a PosInf True best ms"
      using nr nb by (simp add: improve_max)
    also have "\<dots> = (?M, PosInf,
      if a < ?M then map_option snd (find (\<lambda>(v, m). v = ?M) (map (\<lambda>m. (V m, m)) ms))
      else best)"
      by (rule Cons.IH [OF ch' fin' Cons.prems(3)])
    finally show ?thesis
      using ne by (simp add: mx)
  qed
qed

lemma ab_root:
  assumes sl: "set_semantics sl" and wf: "well_formed p" and nd: "no_dead_end sl p d True"
  shows "ab sl p d NegInf PosInf True = exhaustive sl p d True"
proof (cases d)
  case 0
  then show ?thesis by (simp add: ab.simps)
next
  case (Suc d')
  show ?thesis
  proof (cases "is_terminal p (Suc d')")
    case True
    then show ?thesis by (simp add: Suc ab.simps)
  next
    case False
    let ?ms = "moves_of sl p"
    let ?V = "\<lambda>m. fst (exhaustive sl (child p m True) d' False)"
    let ?M = "Max (set (map ?V ?ms))"
    from False nd have ne: "?ms \<noteq> []"
      and ndc: "\<forall>m\<in>set ?ms. no_dead_end sl (child p m True) d' False"
      by (simp_all add: Suc list_all_iff)
    have wfc: "well_formed (child p m True)" if "m \<in> set ?ms" for m
      using that wf sl by (simp add: well_formed_child set_moves_of)
    have fin: "\<exists>q. ?V m = Fin q" if "m \<in> set ?ms" for m
      using that wfc ndc exhaustive_finite [OF sl] by blast
    have vne: "map ?V ?ms \<noteq> []"
      using ne by simp
    then have "?M \<in> set (map ?V ?ms)"
      using Max_in [of "set (map ?V ?ms)"] by (simp del: set_map)
    then obtain m where "m \<in> set ?ms" "?M = ?V m"
      unfolding set_map by blast
    with fin [of m] obtain q where q: "?M = Fin q"
      by auto
    have lt: "NegInf < ?M"
      unfolding q by (simp add: less_pyfloat_def)
    have fm: "fold max (map ?V ?ms) NegInf = ?M"
      unfolding fold_max_Max [OF vne] by (simp add: max.absorb2)
    have "ab_moves sl p d' NegInf PosInf True None ?ms =
     (fold max (map ?V ?ms) NegInf, PosInf,
      if NegInf < fold max (map ?V ?ms) NegInf
      then map_option snd (find (\<lambda>(v, m). v = fold max (map ?V ?ms) NegInf) (map (\<lambda>m. (?V m, m)) ?ms))
      else None)"
    proof (rule ab_moves_root)
      fix m a assume "m \<in> set ?ms" "a < PosInf"
      then show "bound_ok a PosInf (?V m) (fst (ab sl (child p m True) d' a PosInf False))"
        using wfc ndc by (intro ab_bound [OF sl]) auto
    next
      fix m assume "m \<in> set ?ms"
      with fin obtain q' where "?V m = Fin q'" by blast
      then show "?V m < PosInf" by (simp add: less_pyfloat_def)
    next
      show "NegInf < PosInf" by (simp add: less_pyfloat_def)
    qed
    then have "ab_moves sl p d' NegInf PosInf True None ?ms =
        (?M, PosInf, map_option snd (find (\<lambda>(v, m). v = ?M) (map (\<lambda>m. (?V m, m)) ?ms)))"
      unfolding fm if_P [OF lt] .
    then have "ab sl p d NegInf PosInf True
        = (?M, map_option snd (find (\<lambda>(v, m). v = ?M) (map (\<lambda>m. (?V m, m)) ?ms)))"
      using False by (simp add: Suc ab.simps)
    moreover have "exhaustive sl p d True
        = (?M, map_option snd (find (\<lambda>(v, m). v = ?M) (map (\<lambda>m. (?V m, m)) ?ms)))"
      using False ne by (simp add: Suc pick_best_def Let_def comp_def del: set_map)
    ultimately show ?thesis by simp
  qed
qed

lemma table_ok_empty: "table_ok Z p T Map.empty"
  by (simp add: table_ok_def)

lemma well_formed_three_left: "well_formed three_left"
  by (simp add: well_formed_def three_left_def init_engine_def)

lemma three_left_facts:
  "collision_free Z1 three_left (reach remdups three_left 2 True)"
  "no_dead_end remdups three_left 2 True"
  "exhaustive remdups three_left 2 True = (Fin (1463669878895411 / 140737488355328), Some (2, 0))"
  by code_simp+

lemma three_left_leaf:
  "[[1, 2, 1], [2, 1, 2], [1, 2, 0]] \<in> set (reach remdups three_left 2 True)"
  "zobrist_hash Z1 (three_left\<lparr>board := [[1, 2, 1], [2, 1, 2], [1, 2, 0]]\<rparr>) = Some 9476121"
  "static (three_left\<lparr>board := [[1, 2, 1], [2, 1, 2], [1, 2, 0]]\<rparr>)
     = Fin (1463669878895411 / 140737488355328)"
  by code_simp+

lemma table_ok_three_left:
  "table_ok Z1 three_left (set (reach remdups three_left 2 True)) three_left_table"
proof -
  have "is_terminal (three_left\<lparr>board := [[1, 2, 1], [2, 1, 2], [1, 2, 0]]\<rparr>) 0"
    by (simp add: is_terminal_def terminal_def)
  from table_ok_store [OF three_left_facts(1) three_left_leaf(1) table_ok_empty three_left_leaf(2) this]
  show ?thesis
    by (simp add: three_left_leaf(3) three_left_table_def)
qed

text \<open>
  C1, as amended: take the boards of the search tree among boards \<open>bs\<close> no two of
  which have the same fingerprint, and a table \<open>t\<close> that is sound for them: an entry
  under the fingerprint of one of these boards holds the static score of that board and
  a depth at which the board is terminal. The empty table is sound, and so is the table
  that any such call leaves, so that this covers every search of an engine that is used
  again and again. When moreover no node that is searched further is without candidates,
  \<open>minimax\<close> on a well-formed position, with alpha at minus infinity, beta at plus
  infinity and maximizing, returns the score and the move of the exhaustive minimax,
  changes nothing but the table, and leaves a table that is sound again.
\<close>

theorem minimax_exhaustive:
  assumes "set_semantics sl" and "collision_free Z p bs" and "table_ok Z p (set bs) t"
    and "well_formed (p\<lparr>board := b\<rparr>)" and "set (reach sl (p\<lparr>board := b\<rparr>) d True) \<subseteq> set bs"
    and "no_dead_end sl (p\<lparr>board := b\<rparr>) d True"
  shows "\<exists>t'. minimax Z sl (p\<lparr>board := b, transposition_table := t\<rparr>) d NegInf PosInf True
            = Some (exhaustive sl (p\<lparr>board := b\<rparr>) d True, p\<lparr>board := b, transposition_table := t'\<rparr>)
          \<and> table_ok Z p (set bs) t'"
proof -
  from minimax_ab [OF assms(1,2,4,5,3), of NegInf PosInf]
  obtain t' where "minimax Z sl (p\<lparr>board := b, transposition_table := t\<rparr>) d NegInf PosInf True
            = Some (ab sl (p\<lparr>board := b\<rparr>) d NegInf PosInf True, p\<lparr>board := b, transposition_table := t'\<rparr>)"
    and "table_ok Z p (set bs) t'"
    by blast
  with ab_root [OF assms(1,4,6)] show ?thesis
    by auto
qed

theorem minimax_exhaustive_witness:
  "set_semantics remdups
   \<and> collision_free Z1 three_left (reach remdups three_left 2 True)
   \<and> table_ok Z1 three_left (set (reach remdups three_left 2 True)) three_left_table
   \<and> three_left_table 9476121 = Some \<lparr>tt_score = Fin (1463669878895411 / 140737488355328), tt_depth = 0\<rparr>
   \<and> well_formed three_left
   \<and> no_dead_end remdups three_left 2 True
   \<and> (\<exists>t'. minimax Z1 remdups (three_left\<lparr>transposition_table := three_left_table\<rparr>) 2 NegInf PosInf True
          = Some ((Fin (1463669878895411 / 140737488355328), Some (2, 0)),
                  three_left\<lparr>transposition_table := t'\<rparr>)
        \<and> table_ok Z1 three_left (set (reach remdups three_left 2 True)) t')"
proof -
  have b: "three_left\<lparr>board := board three_left\<rparr> = three_left"
    by simp
  have "\<exists>t'. minimax Z1 remdups (three_left\<lparr>board := board three_left, transposition_table := three_left_table\<rparr>)
            2 NegInf PosInf True
          = Some (exhaustive remdups (three_left\<lparr>board := board three_left\<rparr>) 2 True,
                  three_left\<lparr>board := board three_left, transposition_table := t'\<rparr>)
        \<and> table_ok Z1 three_left (set (reach remdups three_left 2 True)) t'"
    by (rule minimax_exhaustive [OF set_semantics_remdups three_left_facts(1) table_ok_three_left])
      (simp_all only: b well_formed_three_left three_left_facts(2) subset_refl)
  then have "\<exists>t'. minimax Z1 remdups (three_left\<lparr>transposition_table := three_left_table\<rparr>) 2 NegInf PosInf True
          = Some ((Fin (1463669878895411 / 140737488355328), Some (2, 0)),
                  three_left\<lparr>transposition_table := t'\<rparr>)
        \<and> table_ok Z1 three_left (set (reach remdups three_left 2 True)) t'"
    unfolding b three_left_facts(3) .
  with set_semantics_remdups three_left_facts(1,2) table_ok_three_left well_formed_three_left
  show ?thesis
    by (simp add: three_left_table_def)
qed

text \<open>
  A table that is not sound changes the result: with a score of 7 stored for the board
  at depth 2, the search of depth 2 returns 7 and no move, and the exhaustive minimax
  another score and a move.
\<close>

lemma minimax_stale_entry:
  "map_option fst (minimax Z0 remdups cached_engine 2 NegInf PosInf True) = Some (Fin 7, None)
   \<and> exhaustive remdups cached_engine 2 True
       = (Fin (5404319552844595 / 4503599627370496), Some (0, 1))"
  by code_simp

text \<open>
  C1, as stated, fails: on the 3 by 3 board with one empty cell, at depth 2, the only
  child of the root is a full board that is not terminal; \<open>minimax\<close> scores it with
  the beta it was given, plus infinity, and the exhaustive minimax with its static score.
\<close>

theorem minimax_not_exhaustive:
  "map_option fst (minimax Z1 remdups full_but_one 2 NegInf PosInf True) = Some (PosInf, Some (2, 2))
   \<and> exhaustive remdups full_but_one 2 True
       = (Fin (- (225179981368525 / 562949953421312)), Some (2, 2))"
  by code_simp

text \<open>
  Two boards of the search tree with the same fingerprint change the result as well:
  with the table \<open>Z0\<close> the search of depth 3 returns another score and another move
  than the exhaustive minimax.
\<close>

lemma minimax_collision:
  "map_option fst (minimax Z0 remdups four_left 3 NegInf PosInf True)
     = Some (Fin (1885882343961395 / 70368744177664), Some (1, 2))
   \<and> exhaustive remdups four_left 3 True = (Fin (3433994715870003 / 140737488355328), Some (2, 2))"
  by code_simp

end
